theory Spec2Isabelle
  imports Main "HOL-Library.Sublist"
begin

text \<open>
  A model of \<open>src/services/geminiService.ts\<close>: \<open>getNestedValue\<close>, \<open>callCustomApi\<close> and
  \<open>translateJson\<close>, with the operations of the language runtime they call
  (\<open>JSON.stringify\<close>, \<open>JSON.parse\<close>, the string methods, the two regular expressions).
  An exception is a value of a sum type (\<open>Inl\<close> the error); what a call does besides
  returning (requests, warnings, delays) is a log of events returned with the result;
  what the host answers (\<open>fetch\<close>, the built-in client, the prototype chain behind
  property access) is a parameter.
\<close>

section \<open>Strings of the runtime\<close>

text \<open>
  A string of the source language is a finite sequence of UTF-16 code units. The model
  keeps each code unit as a natural number, so every string the program can hold is a
  \<open>jstring\<close>; a literal of the source is written \<open>js ''...''\<close>. The backslash
  (code unit 92) is written as a number.
\<close>

type_synonym jstring = "nat list"

abbreviation js :: "string \<Rightarrow> jstring" where
  "js s \<equiv> map of_char s"

abbreviation cu :: "char \<Rightarrow> nat" where
  "cu c \<equiv> of_char c"

definition is_digit :: "nat \<Rightarrow> bool" where
  "is_digit c = (48 \<le> c \<and> c \<le> 57)"

text \<open>Decimal digits of a natural number, as the runtime prints an integer.\<close>

fun show_nat :: "nat \<Rightarrow> jstring" where
  "show_nat n = (if n < 10 then [48 + n] else show_nat (n div 10) @ [48 + n mod 10])"

declare show_nat.simps [simp del]

text \<open>The value of a sequence of decimal digits.\<close>

definition int_of_digits :: "jstring \<Rightarrow> int" where
  "int_of_digits ds = foldl (\<lambda>a c. 10 * a + (int c - 48)) 0 ds"

section \<open>JSON values\<close>

text \<open>
  A decoded JSON value. An object is the list of its own properties in the order the
  runtime enumerates them (integer-like keys ascending first, then the other keys in
  creation order), with distinct keys. A number \<open>JNum m e\<close> is the decimal
  \<open>m * 10 ^ e\<close>, with \<open>m\<close> not divisible by ten (zero is \<open>JNum 0 0\<close>): the model keeps
  the exact value of a number literal, where the runtime rounds it to the nearest double.
\<close>

datatype json =
    JNull
  | JBool bool
  | JNum int int
  | JStr jstring
  | JArr "json list"
  | JObj "(jstring \<times> json) list"

subsection \<open>JSON.stringify\<close>

definition hex_digit :: "nat \<Rightarrow> nat" where
  "hex_digit d = (if d < 10 then 48 + d else 87 + d)"

definition unicode_escape :: "nat \<Rightarrow> jstring" where
  "unicode_escape c =
     [92, cu CHR ''u''] @
     map hex_digit [c div 4096 mod 16, c div 256 mod 16, c div 16 mod 16, c mod 16]"

definition is_high_surrogate :: "nat \<Rightarrow> bool" where
  "is_high_surrogate c = (55296 \<le> c \<and> c \<le> 56319)"

definition is_low_surrogate :: "nat \<Rightarrow> bool" where
  "is_low_surrogate c = (56320 \<le> c \<and> c \<le> 57343)"

text \<open>One code unit of a quoted string that is not part of a surrogate pair.\<close>

definition quote_unit :: "nat \<Rightarrow> jstring" where
  "quote_unit c =
     (if c = 8 then [92, cu CHR ''b'']
      else if c = 9 then [92, cu CHR ''t'']
      else if c = 10 then [92, cu CHR ''n'']
      else if c = 12 then [92, cu CHR ''f'']
      else if c = 13 then [92, cu CHR ''r'']
      else if c = 34 then [92, 34]
      else if c = 92 then [92, 92]
      else if c < 32 \<or> is_high_surrogate c \<or> is_low_surrogate c then unicode_escape c
      else [c])"

fun quote_units :: "jstring \<Rightarrow> jstring" where
  "quote_units [] = []"
| "quote_units [c] = quote_unit c"
| "quote_units (c # d # cs) =
     (if is_high_surrogate c \<and> is_low_surrogate d then c # d # quote_units cs
      else quote_unit c @ quote_units (d # cs))"

text \<open>\<open>JSON.stringify\<close> of a string: the JSON string literal, quotes included.\<close>

definition quote_json_string :: "jstring \<Rightarrow> jstring" where
  "quote_json_string s = [34] @ quote_units s @ [34]"

text \<open>The runtime's decimal printing of a number (\<open>Number::toString\<close>, radix ten).\<close>

definition number_to_string :: "int \<Rightarrow> int \<Rightarrow> jstring" where
  "number_to_string m e =
     (if m = 0 then js ''0''
      else
        let ds = show_nat (nat \<bar>m\<bar>);
            k = int (length ds);
            n = k + e;
            sign = (if m < 0 then js ''-'' else [])
        in sign @
           (if k \<le> n \<and> n \<le> 21 then ds @ replicate (nat (n - k)) 48
            else if 0 < n \<and> n \<le> 21 then take (nat n) ds @ js ''.'' @ drop (nat n) ds
            else if - 6 < n \<and> n \<le> 0 then js ''0.'' @ replicate (nat (- n)) 48 @ ds
            else
              let es = (if n - 1 < 0 then js ''-'' else js ''+'') @ show_nat (nat \<bar>n - 1\<bar>)
              in if k = 1 then ds @ js ''e'' @ es
                 else take 1 ds @ js ''.'' @ drop 1 ds @ js ''e'' @ es))"

fun JSON_stringify :: "json \<Rightarrow> jstring"
  and stringify_elements :: "json list \<Rightarrow> jstring"
  and stringify_members :: "(jstring \<times> json) list \<Rightarrow> jstring" where
  "JSON_stringify JNull = js ''null''"
| "JSON_stringify (JBool b) = (if b then js ''true'' else js ''false'')"
| "JSON_stringify (JNum m e) = number_to_string m e"
| "JSON_stringify (JStr s) = quote_json_string s"
| "JSON_stringify (JArr xs) = js ''['' @ stringify_elements xs @ js '']''"
| "JSON_stringify (JObj kvs) = js ''{'' @ stringify_members kvs @ js ''}''"
| "stringify_elements [] = []"
| "stringify_elements [x] = JSON_stringify x"
| "stringify_elements (x # y # xs) = JSON_stringify x @ js '','' @ stringify_elements (y # xs)"
| "stringify_members [] = []"
| "stringify_members [(k, v)] = quote_json_string k @ js '':'' @ JSON_stringify v"
| "stringify_members ((k, v) # p # kvs) =
     quote_json_string k @ js '':'' @ JSON_stringify v @ js '','' @ stringify_members (p # kvs)"

subsection \<open>JSON.parse\<close>

definition is_json_ws :: "nat \<Rightarrow> bool" where
  "is_json_ws c = (c = 32 \<or> c = 9 \<or> c = 10 \<or> c = 13)"

definition skip_ws :: "jstring \<Rightarrow> jstring" where
  "skip_ws s = dropWhile is_json_ws s"

definition hex_value :: "nat \<Rightarrow> nat option" where
  "hex_value c =
     (if 48 \<le> c \<and> c \<le> 57 then Some (c - 48)
      else if 65 \<le> c \<and> c \<le> 70 then Some (c - 55)
      else if 97 \<le> c \<and> c \<le> 102 then Some (c - 87)
      else None)"

definition unescape :: "nat \<Rightarrow> nat option" where
  "unescape c =
     (if c = 34 then Some 34
      else if c = 92 then Some 92
      else if c = cu CHR ''/'' then Some (cu CHR ''/'')
      else if c = cu CHR ''b'' then Some 8
      else if c = cu CHR ''f'' then Some 12
      else if c = cu CHR ''n'' then Some 10
      else if c = cu CHR ''r'' then Some 13
      else if c = cu CHR ''t'' then Some 9
      else None)"

definition push_unit :: "nat \<Rightarrow> (jstring \<times> jstring) option \<Rightarrow> (jstring \<times> jstring) option" where
  "push_unit c r = (case r of None \<Rightarrow> None | Some (s, rest) \<Rightarrow> Some (c # s, rest))"

text \<open>The characters of a string literal after its opening quote: the decoded string and
  the text after the closing quote.\<close>

definition hex4 :: "nat \<Rightarrow> nat \<Rightarrow> nat \<Rightarrow> nat \<Rightarrow> nat option" where
  "hex4 h1 h2 h3 h4 =
     (case hex_value h1 of None \<Rightarrow> None | Some a \<Rightarrow>
      case hex_value h2 of None \<Rightarrow> None | Some b \<Rightarrow>
      case hex_value h3 of None \<Rightarrow> None | Some c \<Rightarrow>
      case hex_value h4 of None \<Rightarrow> None | Some d \<Rightarrow>
        Some (((a * 16 + b) * 16 + c) * 16 + d))"

fun parse_string_chars :: "jstring \<Rightarrow> (jstring \<times> jstring) option" where
  "parse_string_chars [] = None"
| "parse_string_chars (c # cs) =
     (if c = 34 then Some ([], cs)
      else if c = 92 then
        (case cs of
           [] \<Rightarrow> None
         | e # r \<Rightarrow>
             if e = cu CHR ''u'' then
               (case r of
                  h1 # h2 # h3 # h4 # r' \<Rightarrow>
                    (case hex4 h1 h2 h3 h4 of
                       Some u \<Rightarrow> push_unit u (parse_string_chars r')
                     | None \<Rightarrow> None)
                | _ \<Rightarrow> None)
             else
               (case unescape e of
                  Some x \<Rightarrow> push_unit x (parse_string_chars r)
                | None \<Rightarrow> None))
      else if c < 32 then None
      else push_unit c (parse_string_chars cs))"

text \<open>A number literal of the JSON grammar at the head of the text.\<close>

definition decimal_value :: "bool \<Rightarrow> jstring \<Rightarrow> jstring \<Rightarrow> int \<Rightarrow> json" where
  "decimal_value neg ip fp ex =
     (let ds = ip @ fp;
          ds' = rev (dropWhile (\<lambda>d. d = 48) (rev ds));
          m = int_of_digits ds'
      in if m = 0 then JNum 0 0
         else JNum (if neg then - m else m)
                (ex - int (length fp) + int (length ds - length ds')))"

definition parse_exponent :: "jstring \<Rightarrow> (int \<times> jstring) option" where
  "parse_exponent s =
     (case s of
        [] \<Rightarrow> Some (0, s)
      | c # r \<Rightarrow>
          if c = cu CHR ''e'' \<or> c = cu CHR ''E'' then
            (let (neg, r1) =
                   (case r of
                      [] \<Rightarrow> (False, r)
                    | x # r' \<Rightarrow>
                        if x = cu CHR ''-'' then (True, r')
                        else if x = cu CHR ''+'' then (False, r')
                        else (False, r));
                 ed = takeWhile is_digit r1
             in if ed = [] then None
                else Some ((if neg then - int_of_digits ed else int_of_digits ed),
                           dropWhile is_digit r1))
          else Some (0, s))"

definition parse_fraction :: "jstring \<Rightarrow> (jstring \<times> jstring) option" where
  "parse_fraction s =
     (case s of
        [] \<Rightarrow> Some ([], s)
      | c # r \<Rightarrow>
          if c = cu CHR ''.'' then
            (let fd = takeWhile is_digit r
             in if fd = [] then None else Some (fd, dropWhile is_digit r))
          else Some ([], s))"

definition parse_number :: "jstring \<Rightarrow> (json \<times> jstring) option" where
  "parse_number s =
     (let (neg, s1) =
            (case s of
               [] \<Rightarrow> (False, s)
             | c # r \<Rightarrow> if c = cu CHR ''-'' then (True, r) else (False, s));
          ip = takeWhile is_digit s1
      in if ip = [] \<or> (1 < length ip \<and> hd ip = 48) then None
         else
           (case parse_fraction (dropWhile is_digit s1) of
              None \<Rightarrow> None
            | Some (fp, s2) \<Rightarrow>
                (case parse_exponent s2 of
                   None \<Rightarrow> None
                 | Some (ex, s3) \<Rightarrow> Some (decimal_value neg ip fp ex, s3))))"

text \<open>A keyword (\<open>true\<close>, \<open>false\<close>, \<open>null\<close>) at the head of the text.\<close>

definition parse_keyword :: "jstring \<Rightarrow> json \<Rightarrow> jstring \<Rightarrow> (json \<times> jstring) option" where
  "parse_keyword w v s = (if prefix w s then Some (v, drop (length w) s) else None)"

text \<open>
  Storing a property in an object under construction: an existing key keeps its place
  and takes the new value; a new integer-like key goes among the integer-like keys in
  ascending order; any other new key goes last.
\<close>

definition array_index :: "jstring \<Rightarrow> nat option" where
  "array_index k =
     (if k \<noteq> [] \<and> list_all is_digit k \<and> (k = js ''0'' \<or> hd k \<noteq> 48)
         \<and> length k \<le> 10 \<and> int_of_digits k < 4294967295
      then Some (nat (int_of_digits k)) else None)"

fun insert_index_key :: "nat \<Rightarrow> jstring \<Rightarrow> json \<Rightarrow> (jstring \<times> json) list \<Rightarrow> (jstring \<times> json) list" where
  "insert_index_key i k v [] = [(k, v)]"
| "insert_index_key i k v ((k', v') # kvs) =
     (case array_index k' of
        Some j \<Rightarrow> if j < i then (k', v') # insert_index_key i k v kvs
                  else (k, v) # (k', v') # kvs
      | None \<Rightarrow> (k, v) # (k', v') # kvs)"

definition object_put :: "jstring \<Rightarrow> json \<Rightarrow> (jstring \<times> json) list \<Rightarrow> (jstring \<times> json) list" where
  "object_put k v kvs =
     (if k \<in> fst ` set kvs then map (\<lambda>(k', v'). if k' = k then (k', v) else (k', v')) kvs
      else
        (case array_index k of
           Some i \<Rightarrow> insert_index_key i k v kvs
         | None \<Rightarrow> kvs @ [(k, v)]))"

lemma push_unit_Some:
  "push_unit c r = Some (s, rest) \<Longrightarrow> \<exists>s'. r = Some (s', rest)"
  by (auto simp: push_unit_def split: option.splits)

lemma parse_string_chars_shorter:
  "parse_string_chars s = Some (str, r) \<Longrightarrow> length r < length s"
proof (induction "length s" arbitrary: s str r rule: less_induct)
  case less
  note IH = less.hyps
  from less.prems obtain c cs where s: "s = c # cs"
    by (cases s) auto
  show ?case
  proof (cases "c = 34")
    case True
    with less.prems s show ?thesis by simp
  next
    case c34: False
    show ?thesis
    proof (cases "c = 92")
      case False
      with c34 less.prems s have "push_unit c (parse_string_chars cs) = Some (str, r)"
        by (simp split: if_splits)
      then obtain s' where "parse_string_chars cs = Some (s', r)"
        using push_unit_Some by blast
      with IH [of cs s' r] s show ?thesis by simp
    next
      case True
      with less.prems c34 s obtain e r0 where cs: "cs = e # r0"
        by (cases cs) auto
      show ?thesis
      proof (cases "e = cu CHR ''u''")
        case eu: True
        from less.prems c34 True s cs eu obtain h1 h2 h3 h4 r' where r0: "r0 = h1 # h2 # h3 # h4 # r'"
          by (simp split: list.splits)
        from less.prems c34 True s cs eu r0 obtain u where
          pu: "push_unit u (parse_string_chars r') = Some (str, r)"
          by (simp split: option.splits)
        from pu obtain s' where "parse_string_chars r' = Some (s', r)"
          using push_unit_Some by blast
        with IH [of r' s' r] s cs r0 show ?thesis by simp
      next
        case False
        with less.prems c34 True s cs obtain x where
          pu: "push_unit x (parse_string_chars r0) = Some (str, r)"
          by (simp split: option.splits)
        from pu obtain s' where "parse_string_chars r0 = Some (s', r)"
          using push_unit_Some by blast
        with IH [of r0 s' r] s cs show ?thesis by simp
      qed
    qed
  qed
qed

lemma length_skip_ws: "length (skip_ws s) \<le> length s"
  by (simp add: skip_ws_def length_dropWhile_le)

lemma skip_ws_Cons_shorter: "skip_ws s = c # r \<Longrightarrow> length r < length s"
  using length_skip_ws [of s] by simp

function parse_value :: "jstring \<Rightarrow> (json \<times> jstring) option"
  and parse_elements :: "jstring \<Rightarrow> json list \<Rightarrow> (json \<times> jstring) option"
  and parse_members :: "jstring \<Rightarrow> (jstring \<times> json) list \<Rightarrow> (json \<times> jstring) option" where
  "parse_value s =
     (case skip_ws s of
        [] \<Rightarrow> None
      | c # r \<Rightarrow>
          if c = cu CHR ''{'' then
            (case skip_ws r of
               [] \<Rightarrow> None
             | c' # r' \<Rightarrow> if c' = cu CHR ''}'' then Some (JObj [], r') else parse_members r [])
          else if c = cu CHR ''['' then
            (case skip_ws r of
               [] \<Rightarrow> None
             | c' # r' \<Rightarrow> if c' = cu CHR '']'' then Some (JArr [], r') else parse_elements r [])
          else if c = 34 then
            (case parse_string_chars r of
               None \<Rightarrow> None
             | Some (str, r') \<Rightarrow> Some (JStr str, r'))
          else if c = cu CHR ''t'' then parse_keyword (js ''true'') (JBool True) (c # r)
          else if c = cu CHR ''f'' then parse_keyword (js ''false'') (JBool False) (c # r)
          else if c = cu CHR ''n'' then parse_keyword (js ''null'') JNull (c # r)
          else parse_number (c # r))"
| "parse_elements s acc =
     (case parse_value s of
        None \<Rightarrow> None
      | Some (v, r) \<Rightarrow>
          if length r < length s then
            (case skip_ws r of
               [] \<Rightarrow> None
             | c # r' \<Rightarrow>
                 if c = cu CHR '','' then parse_elements r' (acc @ [v])
                 else if c = cu CHR '']'' then Some (JArr (acc @ [v]), r')
                 else None)
          else None)"
| "parse_members s acc =
     (case skip_ws s of
        [] \<Rightarrow> None
      | q # r0 \<Rightarrow>
          if q = 34 then
            (case parse_string_chars r0 of
               None \<Rightarrow> None
             | Some (k, r1) \<Rightarrow>
                 (case skip_ws r1 of
                    [] \<Rightarrow> None
                  | c # r2 \<Rightarrow>
                      if c = cu CHR '':'' then
                        (case parse_value r2 of
                           None \<Rightarrow> None
                         | Some (v, r3) \<Rightarrow>
                             if length r3 < length r2 then
                               (case skip_ws r3 of
                                  [] \<Rightarrow> None
                                | d # r4 \<Rightarrow>
                                    if d = cu CHR '','' then parse_members r4 (object_put k v acc)
                                    else if d = cu CHR ''}'' then Some (JObj (object_put k v acc), r4)
                                    else None)
                             else None)
                      else None))
          else None)"
  by pat_completeness auto

termination parse_value
proof (relation "measures [\<lambda>x. case x of Inl s \<Rightarrow> length s | Inr (Inl (s, _)) \<Rightarrow> length s | Inr (Inr (s, _)) \<Rightarrow> length s,
                           \<lambda>x. case x of Inl _ \<Rightarrow> 0 | Inr _ \<Rightarrow> 1]", goal_cases)
  case 1 then show ?case by simp
next
  case (2 s c r c' r') then show ?case by (auto dest: skip_ws_Cons_shorter)
next
  case (3 s c r c' r') then show ?case by (auto dest: skip_ws_Cons_shorter)
next
  case 4 then show ?case by simp
next
  case 5 then show ?case by (auto dest: skip_ws_Cons_shorter)
next
  case 6 then show ?case
    by (auto dest!: skip_ws_Cons_shorter parse_string_chars_shorter)
next
  case 7 then show ?case
    by (auto dest!: skip_ws_Cons_shorter parse_string_chars_shorter)
qed

definition JSON_parse :: "jstring \<Rightarrow> json option" where
  "JSON_parse s =
     (case parse_value s of
        None \<Rightarrow> None
      | Some (v, r) \<Rightarrow> if skip_ws r = [] then Some v else None)"

section \<open>String operations of the runtime\<close>

text \<open>The first occurrence of a pattern: the text before it and the text after it.\<close>

fun find_first :: "jstring \<Rightarrow> jstring \<Rightarrow> (jstring \<times> jstring) option" where
  "find_first pat [] = (if pat = [] then Some ([], []) else None)"
| "find_first pat (c # cs) =
     (if prefix pat (c # cs) then Some ([], drop (length pat) (c # cs))
      else (case find_first pat cs of
              None \<Rightarrow> None
            | Some (pre, post) \<Rightarrow> Some (c # pre, post)))"

text \<open>\<open>String.prototype.includes\<close>.\<close>

definition String_includes :: "jstring \<Rightarrow> jstring \<Rightarrow> bool" where
  "String_includes s pat = (case find_first pat s of None \<Rightarrow> False | Some _ \<Rightarrow> True)"

text \<open>
  The replacement text of \<open>String.prototype.replace\<close> when the replacement is a string
  (\<open>GetSubstitution\<close>): \<open>$$\<close> stands for a dollar sign, \<open>$&\<close> for the matched text,
  \<open>$`\<close> for the text before the match and \<open>$'\<close> for the text after it. A string
  pattern has no capture groups, so every other dollar sign stands for itself.
\<close>

fun getSubstitution :: "jstring \<Rightarrow> jstring \<Rightarrow> jstring \<Rightarrow> jstring \<Rightarrow> jstring" where
  "getSubstitution matched pre post [] = []"
| "getSubstitution matched pre post [c] = [c]"
| "getSubstitution matched pre post (c # d # r) =
     (if c = cu CHR ''$'' then
        (if d = cu CHR ''$'' then cu CHR ''$'' # getSubstitution matched pre post r
         else if d = cu CHR ''&'' then matched @ getSubstitution matched pre post r
         else if d = 96 then pre @ getSubstitution matched pre post r
         else if d = 39 then post @ getSubstitution matched pre post r
         else c # getSubstitution matched pre post (d # r))
      else c # getSubstitution matched pre post (d # r))"

text \<open>\<open>String.prototype.replace\<close> with a string pattern and a string replacement: only the
  first occurrence is replaced.\<close>

definition String_replace :: "jstring \<Rightarrow> jstring \<Rightarrow> jstring \<Rightarrow> jstring" where
  "String_replace s pat repl =
     (case find_first pat s of
        None \<Rightarrow> s
      | Some (pre, post) \<Rightarrow> pre @ getSubstitution pat pre post repl @ post)"

text \<open>\<open>String.prototype.split\<close> with a separator of one code unit.\<close>

fun split_on :: "nat \<Rightarrow> jstring \<Rightarrow> jstring list" where
  "split_on sep [] = [[]]"
| "split_on sep (c # cs) =
     (if c = sep then [] # split_on sep cs
      else (case split_on sep cs of
              [] \<Rightarrow> [[c]]
            | h # t \<Rightarrow> (c # h) # t))"

text \<open>\<open>String.prototype.trim\<close>: white space and line terminators are removed at both ends.\<close>

definition is_js_space :: "nat \<Rightarrow> bool" where
  "is_js_space c =
     (c = 9 \<or> c = 10 \<or> c = 11 \<or> c = 12 \<or> c = 13 \<or> c = 32 \<or> c = 160 \<or> c = 5760
      \<or> (8192 \<le> c \<and> c \<le> 8202) \<or> c = 8232 \<or> c = 8233 \<or> c = 8239 \<or> c = 8287
      \<or> c = 12288 \<or> c = 65279)"

definition trim :: "jstring \<Rightarrow> jstring" where
  "trim s = rev (dropWhile is_js_space (rev (dropWhile is_js_space s)))"

subsection \<open>Regular expressions\<close>

text \<open>
  The regular expressions of the source, with the backtracking semantics of the runtime:
  \<open>matches r s\<close> lists, in the order the matcher tries them, the texts that can remain
  after \<open>r\<close> has matched at the head of \<open>s\<close>. Alternatives are tried left to right,
  \<open>?\<close> and \<open>*\<close> are greedy, and an iteration of \<open>*\<close> that consumes nothing is
  rejected. \<open>AnyUnit\<close> is the class \<open>[\s\S]\<close>, which every code unit belongs to.
\<close>

datatype regex =
    Eps
  | Lit nat
  | AnyUnit
  | Seq regex regex
  | Alt regex regex
  | Opt regex
  | Star regex

primrec star_iter :: "(jstring \<Rightarrow> jstring list) \<Rightarrow> nat \<Rightarrow> jstring \<Rightarrow> jstring list" where
  "star_iter f 0 s = [s]"
| "star_iter f (Suc n) s =
     concat (map (\<lambda>t. if length t < length s then star_iter f n t else []) (f s)) @ [s]"

fun matches :: "regex \<Rightarrow> jstring \<Rightarrow> jstring list" where
  "matches Eps s = [s]"
| "matches (Lit c) s = (case s of [] \<Rightarrow> [] | x # r \<Rightarrow> if x = c then [r] else [])"
| "matches AnyUnit s = (case s of [] \<Rightarrow> [] | x # r \<Rightarrow> [r])"
| "matches (Seq a b) s = concat (map (matches b) (matches a s))"
| "matches (Alt a b) s = matches a s @ matches b s"
| "matches (Opt a) s = matches a s @ [s]"
| "matches (Star a) s = star_iter (matches a) (length s) s"

fun lits :: "jstring \<Rightarrow> regex" where
  "lits [] = Eps"
| "lits [c] = Lit c"
| "lits (c # d # cs) = Seq (Lit c) (lits (d # cs))"

text \<open>\<open>String.prototype.match\<close> with a regular expression without the global flag: the
  leftmost match, as the text before it, the matched text and the text after it.\<close>

fun regex_search :: "regex \<Rightarrow> jstring \<Rightarrow> (jstring \<times> jstring \<times> jstring) option" where
  "regex_search r [] =
     (case matches r [] of [] \<Rightarrow> None | rest # _ \<Rightarrow> Some ([], [], []))"
| "regex_search r (c # cs) =
     (case matches r (c # cs) of
        rest # _ \<Rightarrow> Some ([], take (length (c # cs) - length rest) (c # cs), rest)
      | [] \<Rightarrow>
          (case regex_search r cs of
             None \<Rightarrow> None
           | Some (pre, matched, post) \<Rightarrow> Some (c # pre, matched, post)))"

text \<open>\<open>String.prototype.replace\<close> with a global regular expression and the empty
  replacement: every match is removed, scanning left to right; after an empty match the
  scan moves on by one code unit.\<close>

fun remove_all :: "regex \<Rightarrow> jstring \<Rightarrow> jstring" where
  "remove_all r [] = []"
| "remove_all r (c # cs) =
     (case matches r (c # cs) of
        [] \<Rightarrow> c # remove_all r cs
      | rest # _ \<Rightarrow>
          if length rest < length (c # cs) then remove_all r rest
          else c # remove_all r cs)"

section \<open>Response extraction\<close>

text \<open>
  A value of the runtime that path resolution can reach: \<open>undefined\<close>, a value
  of JSON shape (a primitive, an array or a plain object, as \<open>JSON.parse\<close> returns
  them), or another object of the host (a built-in function or prototype object, named
  by a number).
\<close>

datatype jsval = Undefined | Decoded json | HostObject nat

text \<open>Truthiness, as \<open>&&\<close> tests it. Host objects are objects, hence truthy.\<close>

fun truthy :: "jsval \<Rightarrow> bool" where
  "truthy Undefined = False"
| "truthy (Decoded JNull) = False"
| "truthy (Decoded (JBool b)) = b"
| "truthy (Decoded (JNum m e)) = (m \<noteq> 0)"
| "truthy (Decoded (JStr s)) = (s \<noteq> [])"
| "truthy (Decoded (JArr xs)) = True"
| "truthy (Decoded (JObj kvs)) = True"
| "truthy (HostObject h) = True"

text \<open>A property key that is the canonical decimal form of a natural number.\<close>

definition index_of_key :: "jstring \<Rightarrow> nat option" where
  "index_of_key k =
     (if k \<noteq> [] \<and> list_all is_digit k \<and> (k = js ''0'' \<or> hd k \<noteq> 48)
      then Some (nat (int_of_digits k)) else None)"

text \<open>The number that \<open>length\<close> answers.\<close>

definition number_of_nat :: "nat \<Rightarrow> json" where
  "number_of_nat n = decimal_value False (show_nat n) [] 0"

text \<open>
  Property access \<open>v[key]\<close> on a truthy value. An object answers with its own property;
  an array and a string answer to an index in range and to \<open>length\<close>. Every other
  lookup goes up the prototype chain of the host, which the model takes as the
  parameter \<open>inherited\<close>. (The access is never made on \<open>undefined\<close> or \<open>null\<close>,
  where it would raise: \<open>&&\<close> guards it.)
\<close>

fun get_property :: "(jsval \<Rightarrow> jstring \<Rightarrow> jsval) \<Rightarrow> jsval \<Rightarrow> jstring \<Rightarrow> jsval" where
  "get_property inherited (Decoded (JObj kvs)) key =
     (case map_of kvs key of
        Some v \<Rightarrow> Decoded v
      | None \<Rightarrow> inherited (Decoded (JObj kvs)) key)"
| "get_property inherited (Decoded (JArr xs)) key =
     (case index_of_key key of
        Some i \<Rightarrow> if i < length xs then Decoded (xs ! i) else inherited (Decoded (JArr xs)) key
      | None \<Rightarrow>
          if key = js ''length'' then Decoded (number_of_nat (length xs))
          else inherited (Decoded (JArr xs)) key)"
| "get_property inherited (Decoded (JStr s)) key =
     (case index_of_key key of
        Some i \<Rightarrow> if i < length s then Decoded (JStr [s ! i]) else inherited (Decoded (JStr s)) key
      | None \<Rightarrow>
          if key = js ''length'' then Decoded (number_of_nat (length s))
          else inherited (Decoded (JStr s)) key)"
| "get_property inherited v key = inherited v key"

text \<open>The step of the fold: \<open>acc && acc[part]\<close>.\<close>

definition and_get :: "(jsval \<Rightarrow> jstring \<Rightarrow> jsval) \<Rightarrow> jsval \<Rightarrow> jstring \<Rightarrow> jsval" where
  "and_get inherited acc part = (if truthy acc then get_property inherited acc part else acc)"

definition getNestedValue :: "(jsval \<Rightarrow> jstring \<Rightarrow> jsval) \<Rightarrow> json \<Rightarrow> jstring \<Rightarrow> jsval" where
  "getNestedValue inherited obj path =
     foldl (and_get inherited) (Decoded obj) (split_on (cu CHR ''.'') path)"

section \<open>Errors, requests and effects\<close>

text \<open>
  A thrown value is an error object: one the source builds with \<open>new Error(message)\<close>,
  the \<open>SyntaxError\<close> of \<open>JSON.parse\<close> (its message is the engine's), or an error of
  the host (a rejected request, a failure of the text-generation client), with its name
  and message.
\<close>

datatype error =
    Error jstring
  | SyntaxError
  | HostError jstring jstring

fun error_name :: "error \<Rightarrow> jstring" where
  "error_name (Error msg) = js ''Error''"
| "error_name SyntaxError = js ''SyntaxError''"
| "error_name (HostError name msg) = name"

datatype ApiProvider = GEMINI | CUSTOM

record ApiSettings =
  provider :: ApiProvider
  customUrl :: jstring
  customMethod :: jstring
  customHeaders :: jstring
  customBodyTemplate :: jstring
  customResponsePath :: jstring

text \<open>The argument of \<open>fetch\<close>, and what the host answers: a rejection, or a response
  with its \<open>ok\<close> flag, its status and the outcome of reading its body as text.\<close>

record request =
  url :: jstring
  http_method :: jstring
  headers :: json
  body :: "jstring option"

record response =
  ok :: bool
  status :: nat
  body_text :: "error + jstring"

datatype fetch_outcome = FetchRejected error | FetchResponse response

text \<open>The argument of the built-in client's \<open>generateContent\<close>, and its outcome: a
  rejection, or a response whose \<open>text\<close> may be absent.\<close>

record generate_request =
  model :: jstring
  contents :: jstring
  systemInstruction :: jstring
  responseMimeType :: jstring

datatype generate_outcome = GenerateRejected error | GenerateResponse "jstring option"

text \<open>What a call does besides returning: the requests it sends, the warnings it logs
  and the delays it waits, in order.\<close>

datatype event =
    Fetch request
  | Generate generate_request
  | WarnExtracted jsval
  | WarnAttempt nat error
  | Delay nat

section \<open>callCustomApi\<close>

text \<open>
  \<open>callCustomApi\<close> (lines 13 to 80 of the source) in its four steps: the headers are
  parsed, the body is prepared, the request is sent, and the string at the response path
  is extracted. It returns the events of the call and the text, or the error thrown.
\<close>

text \<open>Step 2 of \<open>callCustomApi\<close>: the request body from the body template and the
  prompt.\<close>

definition prepare_body :: "jstring \<Rightarrow> jstring \<Rightarrow> jstring" where
  \<open>prepare_body template prompt =
     (let escapedPrompt = quote_json_string prompt;
          bodyStr = template
      in if String_includes bodyStr (js ''"{{prompt}}"'')
         then String_replace bodyStr (js ''"{{prompt}}"'') escapedPrompt
         else String_replace bodyStr (js ''{{prompt}}'') escapedPrompt)\<close>

text \<open>Step 4 of \<open>callCustomApi\<close>: the string at the response path of the decoded
  response.\<close>

definition path_error :: "jstring \<Rightarrow> error" where
  "path_error path =
     Error (js ''Could not find string at path '' @ [39] @ path @ [39]
            @ js '' in response.'')"

definition extract_response ::
  "(jsval \<Rightarrow> jstring \<Rightarrow> jsval) \<Rightarrow> json \<Rightarrow> jstring \<Rightarrow> event list \<times> (error + jstring)" where
  "extract_response inherited json path =
     (let resultText = getNestedValue inherited json path
      in case resultText of
           Decoded (JStr s) \<Rightarrow> ([], Inr s)
         | _ \<Rightarrow> ([WarnExtracted resultText], Inl (path_error path)))"

definition callCustomApi ::
  "(jsval \<Rightarrow> jstring \<Rightarrow> jsval) \<Rightarrow> (request \<Rightarrow> fetch_outcome) \<Rightarrow> jstring \<Rightarrow> ApiSettings
     \<Rightarrow> event list \<times> (error + jstring)" where
  "callCustomApi inherited fetch prompt settings =
     (case JSON_parse (customHeaders settings) of
        None \<Rightarrow> ([], Inl (Error (js ''Invalid Custom Headers format. Must be valid JSON.'')))
      | Some hdrs \<Rightarrow>
          let bodyStr = prepare_body (customBodyTemplate settings) prompt;
              req = \<lparr>url = customUrl settings, http_method = customMethod settings, headers = hdrs,
                     body = (if customMethod settings = js ''POST'' then Some bodyStr else None)\<rparr>
          in case fetch req of
               FetchRejected e \<Rightarrow> ([Fetch req], Inl e)
             | FetchResponse resp \<Rightarrow>
                 if \<not> ok resp then
                   (case body_text resp of
                      Inl e \<Rightarrow> ([Fetch req], Inl e)
                    | Inr errText \<Rightarrow>
                        ([Fetch req],
                         Inl (Error (js ''Custom API Error ('' @ show_nat (status resp)
                                     @ js ''): '' @ errText))))
                 else
                   (case body_text resp of
                      Inl e \<Rightarrow> ([Fetch req], Inl e)
                    | Inr txt \<Rightarrow>
                        (case JSON_parse txt of
                           None \<Rightarrow> ([Fetch req], Inl SyntaxError)
                         | Some json \<Rightarrow>
                             let (evs, r) = extract_response inherited json
                                              (customResponsePath settings)
                             in (Fetch req # evs, r))))"

section \<open>translateJson\<close>

text \<open>
  \<open>translateJson\<close> (lines 82 to 156 of the source). The document to translate is a JSON
  value. The loop variable \<open>attempt\<close> runs from 1 to \<open>maxRetries\<close>; the body of the
  \<open>try\<close> block is \<open>attempt_once\<close>, and \<open>retry_loop\<close> is the loop with its \<open>catch\<close>
  block and the \<open>throw\<close> that follows it.
\<close>

text \<open>The host of a call: the prototype chain behind property access, and what
  \<open>fetch\<close> and the built-in client answer to a request made during a given attempt.\<close>

record host =
  inherited :: "jsval \<Rightarrow> jstring \<Rightarrow> jsval"
  fetch :: "nat \<Rightarrow> request \<Rightarrow> fetch_outcome"
  generateContent :: "nat \<Rightarrow> generate_request \<Rightarrow> generate_outcome"

definition maxRetries :: nat where
  "maxRetries = 3"

definition modelId :: jstring where
  "modelId = js ''gemini-3-pro-preview''"

definition fence_regex :: regex where
  \<open>fence_regex =
     Alt (Seq (lits (js ''```json'')) (Opt (Lit 10))) (Seq (Opt (Lit 10)) (lits (js ''```'')))\<close>

definition json_regex :: regex where
  "json_regex =
     Alt (Seq (Lit (cu CHR ''{'')) (Seq (Star AnyUnit) (Lit (cu CHR ''}''))))
         (Seq (Lit (cu CHR ''['')) (Seq (Star AnyUnit) (Lit (cu CHR '']''))))"

text \<open>The text handed to \<open>JSON.parse\<close>: code fences removed, trimmed, and cut down to the
  match of the second regular expression when there is one.\<close>

definition clean_text :: "jstring \<Rightarrow> jstring" where
  "clean_text text =
     (let cleanText = trim (remove_all fence_regex text)
      in case regex_search json_regex cleanText of
           Some (pre, jsonMatch, post) \<Rightarrow> jsonMatch
         | None \<Rightarrow> cleanText)"

definition parse_clean :: "jstring \<Rightarrow> error + json" where
  "parse_clean text =
     (case JSON_parse (clean_text text) of
        None \<Rightarrow> Inl SyntaxError
      | Some v \<Rightarrow> Inr v)"

text \<open>The prompts built before the loop.\<close>

definition task_block :: "jstring \<Rightarrow> jstring" where
  \<open>task_block jsonString =
     js ''Please translate the following JSON:\<newline>\<newline>```json\<newline>'' @ jsonString
     @ js ''\<newline>```''\<close>

definition fullPromptForCustom :: "jstring \<Rightarrow> jstring \<Rightarrow> jstring" where
  \<open>fullPromptForCustom systemInstr jsonString =
     systemInstr @ js ''\<newline>\<newline>Task: '' @ task_block jsonString\<close>

definition geminiUserPrompt :: "jstring \<Rightarrow> jstring" where
  "geminiUserPrompt jsonString = task_block jsonString"

text \<open>The text the selected provider returns in one attempt.\<close>

definition provider_text ::
  "host \<Rightarrow> nat \<Rightarrow> jstring \<Rightarrow> jstring \<Rightarrow> ApiSettings option \<Rightarrow> event list \<times> (error + jstring)" where
  "provider_text H attempt systemInstr jsonString apiSettings =
     (let gemini =
            (let req = \<lparr>model = modelId, contents = geminiUserPrompt jsonString,
                        systemInstruction = systemInstr,
                        responseMimeType = js ''application/json''\<rparr>
             in case generateContent H attempt req of
                  GenerateRejected e \<Rightarrow> ([Generate req], Inl e)
                | GenerateResponse None \<Rightarrow> ([Generate req], Inr [])
                | GenerateResponse (Some t) \<Rightarrow> ([Generate req], Inr t))
      in case apiSettings of
           None \<Rightarrow> gemini
         | Some settings \<Rightarrow>
             if provider settings = CUSTOM
             then callCustomApi (inherited H) (fetch H attempt)
                    (fullPromptForCustom systemInstr jsonString) settings
             else gemini)"

text \<open>The body of the \<open>try\<close> block: one attempt.\<close>

definition attempt_once ::
  "host \<Rightarrow> nat \<Rightarrow> jstring \<Rightarrow> jstring \<Rightarrow> ApiSettings option \<Rightarrow> event list \<times> (error + json)" where
  "attempt_once H attempt systemInstr jsonString apiSettings =
     (case provider_text H attempt systemInstr jsonString apiSettings of
        (evs, Inl e) \<Rightarrow> (evs, Inl e)
      | (evs, Inr text) \<Rightarrow>
          if text = [] then (evs, Inl (Error (js ''No response text received'')))
          else (evs, parse_clean text))"

text \<open>The loop, from a given attempt on, with the log so far and the last error; and the
  \<open>throw\<close> after the loop.\<close>

definition final_error :: "error option \<Rightarrow> error" where
  "final_error lastError =
     (case lastError of
        Some e \<Rightarrow> e
      | None \<Rightarrow> Error (js ''Translation failed after multiple attempts''))"

function retry_loop ::
  "host \<Rightarrow> jstring \<Rightarrow> jstring \<Rightarrow> ApiSettings option \<Rightarrow> nat \<Rightarrow> error option \<Rightarrow> event list
     \<Rightarrow> event list \<times> (error + json)" where
  "retry_loop H systemInstr jsonString apiSettings attempt lastError log =
     (if attempt \<le> maxRetries then
        (case attempt_once H attempt systemInstr jsonString apiSettings of
           (evs, Inr v) \<Rightarrow> (log @ evs, Inr v)
         | (evs, Inl e) \<Rightarrow>
             if attempt = maxRetries
             then (log @ evs @ [WarnAttempt attempt e], Inl (final_error (Some e)))
             else retry_loop H systemInstr jsonString apiSettings (attempt + 1) (Some e)
                    (log @ evs @ [WarnAttempt attempt e, Delay (1000 * 2 ^ attempt)]))
      else (log, Inl (final_error lastError)))"
  by pat_completeness auto
termination
  by (relation "measure (\<lambda>(H, si, jsn, st, attempt, le, log). maxRetries + 1 - attempt)") auto

declare retry_loop.simps [simp del]

text \<open>\<open>customPrompt || defaultSystemInstruction\<close>: an absent or empty custom prompt gives
  the default. The default text of the source is a parameter of the model.\<close>

definition systemInstruction_of :: "jstring \<Rightarrow> jstring option \<Rightarrow> jstring" where
  "systemInstruction_of defaultSystemInstruction customPrompt =
     (case customPrompt of
        None \<Rightarrow> defaultSystemInstruction
      | Some p \<Rightarrow> if p = [] then defaultSystemInstruction else p)"

definition translateJson ::
  "host \<Rightarrow> jstring \<Rightarrow> json \<Rightarrow> jstring option \<Rightarrow> ApiSettings option \<Rightarrow> event list \<times> (error + json)" where
  "translateJson H defaultSystemInstruction jsonData customPrompt apiSettings =
     (let systemInstr = systemInstruction_of defaultSystemInstruction customPrompt;
          jsonString = JSON_stringify jsonData
      in retry_loop H systemInstr jsonString apiSettings 1 None [])"

text \<open>Reading a log: the delays waited, and the attempts whose failure was logged.\<close>

fun delays_of :: "event list \<Rightarrow> nat list" where
  "delays_of [] = []"
| "delays_of (Delay ms # evs) = ms # delays_of evs"
| "delays_of (ev # evs) = delays_of evs"

fun failed_attempts :: "event list \<Rightarrow> nat list" where
  "failed_attempts [] = []"
| "failed_attempts (WarnAttempt k e # evs) = k # failed_attempts evs"
| "failed_attempts (ev # evs) = failed_attempts evs"

section \<open>Path resolution as the specification words it\<close>

text \<open>
  Path resolution in the words of the specification (its section 4.2), to be compared
  with \<open>getNestedValue\<close>: each segment is an object key or, on an array, an index in
  canonical decimal form; resolution stops at the first segment that cannot be resolved
  (a missing key, an index out of range, indexing into a scalar), and says why.
\<close>

datatype stuck =
    MissingKey | OutOfRange | NotAnIndex | IntoNull | IntoBoolean | IntoNumber | IntoString

datatype resolution = Resolved json | Stuck stuck

fun resolve_path_spec :: "jstring list \<Rightarrow> json \<Rightarrow> resolution" where
  "resolve_path_spec [] v = Resolved v"
| "resolve_path_spec (p # ps) (JObj kvs) =
     (case map_of kvs p of
        Some v \<Rightarrow> resolve_path_spec ps v
      | None \<Rightarrow> Stuck MissingKey)"
| "resolve_path_spec (p # ps) (JArr xs) =
     (case index_of_key p of
        Some i \<Rightarrow> if i < length xs then resolve_path_spec ps (xs ! i) else Stuck OutOfRange
      | None \<Rightarrow> Stuck NotAnIndex)"
| "resolve_path_spec (p # ps) JNull = Stuck IntoNull"
| "resolve_path_spec (p # ps) (JBool b) = Stuck IntoBoolean"
| "resolve_path_spec (p # ps) (JNum m e) = Stuck IntoNumber"
| "resolve_path_spec (p # ps) (JStr s) = Stuck IntoString"

text \<open>Whether a value is a primitive string (\<open>typeof v === 'string'\<close>).\<close>

fun is_string :: "jsval \<Rightarrow> bool" where
  "is_string (Decoded (JStr s)) = True"
| "is_string v = False"

section \<open>Lenient recovery as the specification words it\<close>

text \<open>
  The recovery in the words of the specification (its section 4.2), to be compared with
  the regular expressions of the source. The part of a text through the last occurrence
  of a code unit, and the part after it; and the span the recovery takes: from the first opening brace that has a closing brace
  after it through the last closing brace, or likewise from a bracket through the last
  closing bracket, whichever opening delimiter comes first.
\<close>

definition through_last :: "nat \<Rightarrow> jstring \<Rightarrow> jstring" where
  "through_last c s = rev (dropWhile (\<lambda>x. x \<noteq> c) (rev s))"

definition after_last :: "nat \<Rightarrow> jstring \<Rightarrow> jstring" where
  "after_last c s = rev (takeWhile (\<lambda>x. x \<noteq> c) (rev s))"

fun json_span_spec :: "jstring \<Rightarrow> (jstring \<times> jstring \<times> jstring) option" where
  "json_span_spec [] = None"
| "json_span_spec (x # r) =
     (if x = cu CHR ''{'' \<and> cu CHR ''}'' \<in> set r
      then Some ([], x # through_last (cu CHR ''}'') r, after_last (cu CHR ''}'') r)
      else if x = cu CHR ''['' \<and> cu CHR '']'' \<in> set r
      then Some ([], x # through_last (cu CHR '']'') r, after_last (cu CHR '']'') r)
      else (case json_span_spec r of
              None \<Rightarrow> None
            | Some (pre, matched, post) \<Rightarrow> Some (x # pre, matched, post)))"

text \<open>A text is delimited when it runs from an opening to a closing delimiter and no
  such closing delimiter follows it; the remainders a closing delimiter leaves, tried
  from the last occurrence back to the first.\<close>

definition delimited :: "nat \<Rightarrow> nat \<Rightarrow> jstring \<Rightarrow> jstring \<Rightarrow> bool" where
  "delimited opn cls m post =
     (2 \<le> length m \<and> hd m = opn \<and> last m = cls \<and> cls \<notin> set post)"

definition closers :: "nat \<Rightarrow> jstring \<Rightarrow> jstring list" where
  "closers c t = concat (map (matches (Lit c)) (suffixes t))"

text \<open>
  Removing the fence markers, left to right: a marker is \<open>```json\<close> with the newline
  after it, if there is one, or \<open>```\<close> with the newline before it, if there is one.
\<close>

definition strip_prefix :: "jstring \<Rightarrow> jstring \<Rightarrow> jstring option" where
  "strip_prefix w s = (if prefix w s then Some (drop (length w) s) else None)"

function strip_fences_spec :: "jstring \<Rightarrow> jstring" where
  \<open>strip_fences_spec s =
     (case strip_prefix (js ''```json'') s of
        Some r \<Rightarrow>
          (case strip_prefix [10] r of
             Some r' \<Rightarrow> strip_fences_spec r'
           | None \<Rightarrow> strip_fences_spec r)
      | None \<Rightarrow>
          (case strip_prefix (10 # js ''```'') s of
             Some r \<Rightarrow> strip_fences_spec r
           | None \<Rightarrow>
               (case strip_prefix (js ''```'') s of
                  Some r \<Rightarrow> strip_fences_spec r
                | None \<Rightarrow> (case s of [] \<Rightarrow> [] | c # cs \<Rightarrow> c # strip_fences_spec cs))))\<close>
  by pat_completeness auto
termination
  by (relation "measure length") (auto simp: strip_prefix_def prefix_def split: if_splits)

declare strip_fences_spec.simps [simp del]

section \<open>Hosts and settings of the examples\<close>

text \<open>A host whose built-in client answers without text, whose requests are rejected and
  whose prototypes answer \<open>undefined\<close> to every lookup.\<close>

definition silent_host :: host where
  "silent_host =
     \<lparr>inherited = (\<lambda>v key. Undefined),
      fetch = (\<lambda>attempt req. FetchRejected (HostError (js ''TypeError'') (js ''Failed to fetch''))),
      generateContent = (\<lambda>attempt req. GenerateResponse None)\<rparr>"

text \<open>Settings of a custom endpoint with the bare placeholder.\<close>

definition offline_settings :: ApiSettings where
  \<open>offline_settings =
     \<lparr>provider = CUSTOM, customUrl = js ''https://example.invalid/chat'', customMethod = js ''POST'',
      customHeaders = js ''{}'', customBodyTemplate = js ''{"query": {{prompt}}}'',
      customResponsePath = js ''reply''\<rparr>\<close>

text \<open>A host whose built-in client answers with the empty string in the first attempt
  and with a JSON text afterwards.\<close>

definition late_host :: host where
  \<open>late_host =
     \<lparr>inherited = (\<lambda>v key. Undefined),
      fetch = (\<lambda>attempt req. FetchRejected (HostError (js ''TypeError'') (js ''Failed to fetch''))),
      generateContent =
        (\<lambda>attempt req. if attempt = 1 then GenerateResponse (Some [])
                        else GenerateResponse (Some (js ''{"a":1}'')))\<rparr>\<close>

text \<open>
  The specification names an \<open>ExhaustedRetriesError\<close>. The source declares no such
  class; an error object would be one by its name.
\<close>

definition is_ExhaustedRetriesError :: "error \<Rightarrow> bool" where
  "is_ExhaustedRetriesError e = (error_name e = js ''ExhaustedRetriesError'')"

text \<open>Settings of a custom endpoint with an empty body template, and a \<open>fetch\<close> that
  answers every request with a small JSON document.\<close>

definition empty_body_settings :: ApiSettings where
  \<open>empty_body_settings =
     \<lparr>provider = CUSTOM, customUrl = js ''https://example.invalid/chat'', customMethod = js ''POST'',
      customHeaders = js ''{}'', customBodyTemplate = [], customResponsePath = js ''reply''\<rparr>\<close>

definition reply_sender :: "request \<Rightarrow> fetch_outcome" where
  \<open>reply_sender req = FetchResponse \<lparr>ok = True, status = 200, body_text = Inr (js ''{"reply":"ok"}'')\<rparr>\<close>

text \<open>The response of the specification's example, and a host whose prototypes answer
  \<open>undefined\<close> to every lookup.\<close>

definition choices_example :: json where
  "choices_example =
     JObj [(js ''choices'',
            JArr [JObj [(js ''message'', JObj [(js ''content'', JStr (js ''hi''))])]])]"

definition no_prototypes :: "jsval \<Rightarrow> jstring \<Rightarrow> jsval" where
  "no_prototypes v key = Undefined"

section \<open>Evaluation\<close>

text \<open>The definitions that the simplifier unfolds to run the parser, the cleaning of a
  response text and the preparation of a body on a given input.\<close>

lemmas parse_eval = JSON_parse_def skip_ws_def is_json_ws_def parse_number_def parse_fraction_def
  parse_exponent_def is_digit_def decimal_value_def int_of_digits_def object_put_def
  array_index_def push_unit_def parse_keyword_def hex4_def hex_value_def unescape_def

lemmas clean_eval = parse_clean_def clean_text_def trim_def is_js_space_def fence_regex_def
  json_regex_def

lemmas body_eval = prepare_body_def String_includes_def String_replace_def quote_json_string_def
  quote_unit_def is_high_surrogate_def is_low_surrogate_def unicode_escape_def hex_digit_def

section \<open>The parser consumes its input\<close>

text \<open>
  A value that \<open>parse_value\<close> reads is followed by a text shorter than the one it was read
  from. So the comparisons of lengths in the definitions of \<open>parse_elements\<close> and
  \<open>parse_members\<close>, which make the recursion well-founded, always hold, and the two
  functions satisfy the equations without them.
\<close>

lemma parse_fraction_length: "parse_fraction s = Some (fp, r) \<Longrightarrow> length r \<le> length s"
  by (cases s) (auto simp: parse_fraction_def Let_def length_dropWhile_le le_SucI split: if_splits)

lemma length_dropWhile_le_Suc: "length (dropWhile P xs) \<le> Suc (length xs)"
  using length_dropWhile_le [of P xs] by simp

lemma length_dropWhile_Cons_le: "length (dropWhile P (x # xs)) \<le> Suc (length xs)"
  using length_dropWhile_le [of P "x # xs"] by simp

lemma length_dropWhile_le_Suc2: "length (dropWhile P xs) \<le> Suc (Suc (length xs))"
  using length_dropWhile_le [of P xs] by simp

lemma length_dropWhile_Cons_le2: "length (dropWhile P (x # xs)) \<le> Suc (Suc (length xs))"
  using length_dropWhile_le [of P "x # xs"] by simp

lemma parse_exponent_length: "parse_exponent s = Some (ex, r) \<Longrightarrow> length r \<le> length s"
  unfolding parse_exponent_def Let_def
  by (auto simp: length_dropWhile_le_Suc length_dropWhile_le_Suc2 length_dropWhile_Cons_le
             length_dropWhile_Cons_le2
           simp del: dropWhile.simps split: list.splits if_splits)

lemma dropWhile_shorter: "takeWhile P xs \<noteq> [] \<Longrightarrow> length (dropWhile P xs) < length xs"
  by (cases xs) (auto simp: le_imp_less_Suc length_dropWhile_le split: if_splits)

lemma parse_number_shorter:
  assumes "parse_number s = Some (v, r)"
  shows "length r < length s"
proof -
  obtain neg s1 where s1: "(case s of [] \<Rightarrow> (False, s)
             | c # r \<Rightarrow> if c = cu CHR ''-'' then (True, r) else (False, s)) = (neg, s1)"
    by (cases "(case s of [] \<Rightarrow> (False, s)
             | c # r \<Rightarrow> if c = cu CHR ''-'' then (True, r) else (False, s))") auto
  then have l1: "length s1 \<le> length s"
    by (cases s) (auto split: if_splits)
  from assms s1 obtain fp s2 ex where
    ip: "takeWhile is_digit s1 \<noteq> []"
    and f: "parse_fraction (dropWhile is_digit s1) = Some (fp, s2)"
    and e: "parse_exponent s2 = Some (ex, r)"
    unfolding parse_number_def Let_def
    by (auto split: if_splits option.splits)
  from dropWhile_shorter [OF ip] parse_fraction_length [OF f] parse_exponent_length [OF e] l1
  show ?thesis by simp
qed

lemma parse_keyword_shorter:
  "parse_keyword w v s = Some (v', r) \<Longrightarrow> w \<noteq> [] \<Longrightarrow> length r < length s"
  by (auto simp: parse_keyword_def prefix_def split: if_splits)

lemma parse_shorter:
  "(\<forall>v r. parse_value s = Some (v, r) \<longrightarrow> length r < length s)"
  "(\<forall>v r. parse_elements s acc = Some (v, r) \<longrightarrow> length r < length s)"
  "(\<forall>v r. parse_members s kvs = Some (v, r) \<longrightarrow> length r < length s)"
proof (induction s and s acc and s kvs rule: parse_value_parse_elements_parse_members.induct)
  case (1 s)
  show ?case
  proof (intro allI impI)
    fix v r assume p: "parse_value s = Some (v, r)"
    then obtain c t where sk: "skip_ws s = c # t"
      by (cases "skip_ws s") auto
    then have lt: "length t < length s" by (rule skip_ws_Cons_shorter)
    consider (obj) "c = cu CHR ''{''" | (arr) "c = cu CHR ''[''" | (str) "c = 34"
      | (kw) "c = cu CHR ''t'' \<or> c = cu CHR ''f'' \<or> c = cu CHR ''n''"
      | (num) "c \<noteq> cu CHR ''{''" "c \<noteq> cu CHR ''[''" "c \<noteq> 34" "c \<noteq> cu CHR ''t''"
          "c \<noteq> cu CHR ''f''" "c \<noteq> cu CHR ''n''"
      by blast
    then show "length r < length s"
    proof cases
      case obj
      from p sk obj obtain c' t' where sk': "skip_ws t = c' # t'"
        by (cases "skip_ws t") auto
      show ?thesis
      proof (cases "c' = cu CHR ''}''")
        case True
        with p sk obj sk' have "r = t'" by simp
        with skip_ws_Cons_shorter [OF sk'] lt show ?thesis by simp
      next
        case False
        with p sk obj sk' have "parse_members t [] = Some (v, r)" by simp
        with "1.IH"(1) [OF sk _ sk' False] obj have "length r < length t" by simp
        with lt show ?thesis by simp
      qed
    next
      case arr
      from p sk arr obtain c' t' where sk': "skip_ws t = c' # t'"
        by (cases "skip_ws t") auto
      show ?thesis
      proof (cases "c' = cu CHR '']''")
        case True
        with p sk arr sk' have "r = t'" by simp
        with skip_ws_Cons_shorter [OF sk'] lt show ?thesis by simp
      next
        case False
        with p sk arr sk' have "parse_elements t [] = Some (v, r)" by simp
        with "1.IH"(2) [OF sk _ _ sk' False] arr have "length r < length t" by simp
        with lt show ?thesis by simp
      qed
    next
      case str
      with p sk obtain str' where "parse_string_chars t = Some (str', r)"
        by (auto split: option.splits)
      from parse_string_chars_shorter [OF this] lt show ?thesis by simp
    next
      case kw
      with p sk obtain w v0 where "parse_keyword w v0 (c # t) = Some (v, r)" "w \<noteq> []"
        by (auto split: if_splits)
      from parse_keyword_shorter [OF this] length_skip_ws [of s] sk show ?thesis by simp
    next
      case num
      with p sk have "parse_number (c # t) = Some (v, r)" by simp
      from parse_number_shorter [OF this] length_skip_ws [of s] sk show ?thesis by simp
    qed
  qed
next
  case (2 s acc)
  show ?case
  proof (intro allI impI)
    fix v r assume p: "parse_elements s acc = Some (v, r)"
    then obtain x t where pv: "parse_value s = Some (x, t)" and lt: "length t < length s"
      by (auto split: option.splits if_splits)
    from p pv lt obtain c t' where sk: "skip_ws t = c # t'"
      by (cases "skip_ws t") auto
    from skip_ws_Cons_shorter [OF sk] lt have lt': "length t' < length s" by simp
    show "length r < length s"
    proof (cases "c = cu CHR '',''")
      case True
      with p pv lt sk have "parse_elements t' (acc @ [x]) = Some (v, r)" by simp
      with "2.IH"(2) [OF pv refl lt sk True] have "length r < length t'" by simp
      with lt' show ?thesis by simp
    next
      case False
      with p pv lt sk have "r = t'" by (simp split: if_splits)
      with lt' show ?thesis by simp
    qed
  qed
next
  case (3 s kvs)
  show ?case
  proof (intro allI impI)
    fix v r assume p: "parse_members s kvs = Some (v, r)"
    then obtain q t0 where sk0: "skip_ws s = q # t0"
      by (cases "skip_ws s") auto
    with p have q: "q = 34" by (simp split: if_splits)
    with p sk0 obtain k t1 where ps: "parse_string_chars t0 = Some (k, t1)"
      by (auto split: option.splits)
    with p sk0 q obtain c t2 where sk1: "skip_ws t1 = c # t2"
      by (cases "skip_ws t1") auto
    with p sk0 q ps have c: "c = cu CHR '':''" by (simp split: if_splits)
    with p sk0 q ps sk1 obtain x t3 where pv: "parse_value t2 = Some (x, t3)"
      and lt3: "length t3 < length t2"
      by (auto split: option.splits if_splits)
    with p sk0 q ps sk1 c obtain d t4 where sk3: "skip_ws t3 = d # t4"
      by (cases "skip_ws t3") auto
    have l2: "length t2 < length s"
      using skip_ws_Cons_shorter [OF sk0] parse_string_chars_shorter [OF ps]
        skip_ws_Cons_shorter [OF sk1] by simp
    from skip_ws_Cons_shorter [OF sk3] lt3 l2 have l4: "length t4 < length s" by simp
    show "length r < length s"
    proof (cases "d = cu CHR '',''")
      case True
      with p sk0 q ps sk1 c pv lt3 sk3
      have "parse_members t4 (object_put k x kvs) = Some (v, r)" by simp
      with "3.IH"(2) [OF sk0 q ps refl sk1 c pv refl lt3 sk3 True]
      have "length r < length t4" by simp
      with l4 show ?thesis by simp
    next
      case False
      with p sk0 q ps sk1 c pv lt3 sk3 have "r = t4" by (simp split: if_splits)
      with l4 show ?thesis by simp
    qed
  qed
qed

lemma parse_value_shorter: "parse_value s = Some (v, r) \<Longrightarrow> length r < length s"
  using parse_shorter(1) by blast

lemma parse_elements_unguarded:
  "parse_elements s acc =
     (case parse_value s of
        None \<Rightarrow> None
      | Some (v, r) \<Rightarrow>
          (case skip_ws r of
             [] \<Rightarrow> None
           | c # r' \<Rightarrow>
               if c = cu CHR '','' then parse_elements r' (acc @ [v])
               else if c = cu CHR '']'' then Some (JArr (acc @ [v]), r')
               else None))"
proof (cases "parse_value s")
  case None
  then show ?thesis
    by (subst parse_elements.simps)
       (simp del: parse_value.simps parse_elements.simps parse_members.simps)
next
  case (Some p)
  obtain v r where p: "p = (v, r)" by (cases p)
  with Some have "length r < length s" by (simp add: parse_value_shorter)
  with Some p show ?thesis
    by (subst parse_elements.simps)
       (simp del: parse_value.simps parse_elements.simps parse_members.simps)
qed

lemma parse_members_unguarded:
  "parse_members s acc =
     (case skip_ws s of
        [] \<Rightarrow> None
      | q # r0 \<Rightarrow>
          if q = 34 then
            (case parse_string_chars r0 of
               None \<Rightarrow> None
             | Some (k, r1) \<Rightarrow>
                 (case skip_ws r1 of
                    [] \<Rightarrow> None
                  | c # r2 \<Rightarrow>
                      if c = cu CHR '':'' then
                        (case parse_value r2 of
                           None \<Rightarrow> None
                         | Some (v, r3) \<Rightarrow>
                             (case skip_ws r3 of
                                [] \<Rightarrow> None
                              | d # r4 \<Rightarrow>
                                  if d = cu CHR '','' then parse_members r4 (object_put k v acc)
                                  else if d = cu CHR ''}'' then Some (JObj (object_put k v acc), r4)
                                  else None))
                      else None))
          else None)"
  by (subst parse_members.simps)
     (auto simp del: parse_value.simps parse_elements.simps parse_members.simps
           split: list.splits option.splits dest: parse_value_shorter)

section \<open>The retry loop\<close>

lemma delays_of_append: "delays_of (xs @ ys) = delays_of xs @ delays_of ys"
  by (induction xs rule: delays_of.induct) auto

lemma failed_attempts_append: "failed_attempts (xs @ ys) = failed_attempts xs @ failed_attempts ys"
  by (induction xs rule: failed_attempts.induct) auto

lemma extract_response_quiet:
  "extract_response inh j p = (evs, r) \<Longrightarrow> delays_of evs = [] \<and> failed_attempts evs = []"
  by (auto simp: extract_response_def Let_def split: jsval.splits json.splits)

lemma callCustomApi_quiet:
  "callCustomApi inh f p s = (evs, r) \<Longrightarrow> delays_of evs = [] \<and> failed_attempts evs = []"
  by (auto simp: callCustomApi_def Let_def
           split: option.splits fetch_outcome.splits sum.splits prod.splits if_splits
           dest: extract_response_quiet)

lemma provider_text_quiet:
  "provider_text H k si jsn st = (evs, r) \<Longrightarrow> delays_of evs = [] \<and> failed_attempts evs = []"
  by (auto simp: provider_text_def Let_def
           split: option.splits generate_outcome.splits if_splits
           dest: callCustomApi_quiet)

lemma attempt_once_quiet:
  "attempt_once H k si jsn st = (evs, r) \<Longrightarrow> delays_of evs = [] \<and> failed_attempts evs = []"
  by (auto simp: attempt_once_def split: prod.splits sum.splits if_splits
           dest: provider_text_quiet)

lemma retry_loop_fail_step:
  assumes "attempt_once H k si jsn st = (evs, Inl e)"
      and "k < maxRetries" and "k' = k + 1" and "d = 1000 * 2 ^ k"
  shows "retry_loop H si jsn st k le log =
           retry_loop H si jsn st k' (Some e) (log @ evs @ [WarnAttempt k e, Delay d])"
  using assms by (subst retry_loop.simps) simp

lemma retry_loop_fail_last:
  assumes "attempt_once H k si jsn st = (evs, Inl e)" and "k = maxRetries"
  shows "retry_loop H si jsn st k le log = (log @ evs @ [WarnAttempt k e], Inl e)"
  using assms by (subst retry_loop.simps) (simp add: final_error_def)

lemma retry_loop_success:
  assumes "attempt_once H k si jsn st = (evs, Inr v)" and "k \<le> maxRetries"
  shows "retry_loop H si jsn st k le log = (log @ evs, Inr v)"
  using assms by (subst retry_loop.simps) simp

lemma retry_loop_three_failures:
  assumes a1: "attempt_once H 1 si jsn st = (evs1, Inl e1)"
      and a2: "attempt_once H 2 si jsn st = (evs2, Inl e2)"
      and a3: "attempt_once H 3 si jsn st = (evs3, Inl e3)"
  shows "retry_loop H si jsn st 1 None [] =
           (evs1 @ [WarnAttempt 1 e1, Delay 2000] @ evs2 @ [WarnAttempt 2 e2, Delay 4000]
              @ evs3 @ [WarnAttempt 3 e3], Inl e3)"
proof -
  let ?log1 = "[] @ evs1 @ [WarnAttempt 1 e1, Delay 2000]"
  let ?log2 = "?log1 @ evs2 @ [WarnAttempt 2 e2, Delay 4000]"
  have "retry_loop H si jsn st 1 None [] = retry_loop H si jsn st 2 (Some e1) ?log1"
    by (rule retry_loop_fail_step [OF a1]) (simp_all add: maxRetries_def)
  also have "\<dots> = retry_loop H si jsn st 3 (Some e2) ?log2"
    by (rule retry_loop_fail_step [OF a2]) (simp_all add: maxRetries_def)
  also have "\<dots> = (?log2 @ evs3 @ [WarnAttempt 3 e3], Inl e3)"
    by (rule retry_loop_fail_last [OF a3]) (simp add: maxRetries_def)
  finally show ?thesis by simp
qed

lemma silent_attempt:
  "attempt_once silent_host k si jsn None =
     ([Generate \<lparr>model = modelId, contents = geminiUserPrompt jsn, systemInstruction = si,
                  responseMimeType = js ''application/json''\<rparr>],
      Inl (Error (js ''No response text received'')))"
  by (simp add: attempt_once_def provider_text_def silent_host_def)

lemma offline_attempt:
  "attempt_once silent_host k si jsn (Some offline_settings) =
     ([Fetch \<lparr>url = js ''https://example.invalid/chat'', http_method = js ''POST'', headers = JObj [],
              body = Some (prepare_body (customBodyTemplate offline_settings)
                             (fullPromptForCustom si jsn))\<rparr>],
      Inl (HostError (js ''TypeError'') (js ''Failed to fetch'')))"
  by (simp add: attempt_once_def provider_text_def silent_host_def offline_settings_def
      callCustomApi_def JSON_parse_def skip_ws_def is_json_ws_def Let_def)

lemma late_first:
  "provider_text late_host 1 si jsn None =
     ([Generate \<lparr>model = modelId, contents = geminiUserPrompt jsn, systemInstruction = si,
                  responseMimeType = js ''application/json''\<rparr>], Inr [])"
  by (simp add: provider_text_def late_host_def)

lemma late_second:
  \<open>attempt_once late_host 2 si jsn None =
     ([Generate \<lparr>model = modelId, contents = geminiUserPrompt jsn, systemInstruction = si,
                  responseMimeType = js ''application/json''\<rparr>],
      Inr (JObj [(js ''a'', JNum 1 0)]))\<close>
  by (simp add: attempt_once_def provider_text_def late_host_def clean_eval parse_eval)

text \<open>
  C4. When every attempt fails, whatever the errors are, the loop makes exactly three
  attempts, waits 2000 ms after the first failure and 4000 ms after the second
  (\<open>1000 * 2 ^ k\<close> after failed attempt \<open>k < 3\<close>), waits no more after the third,
  and raises the error of the third attempt.
\<close>

theorem retry_exactly_three_attempts:
  assumes a1: "attempt_once H 1 (systemInstruction_of dflt customPrompt) (JSON_stringify jsonData) apiSettings = (evs1, Inl e1)"
      and a2: "attempt_once H 2 (systemInstruction_of dflt customPrompt) (JSON_stringify jsonData) apiSettings = (evs2, Inl e2)"
      and a3: "attempt_once H 3 (systemInstruction_of dflt customPrompt) (JSON_stringify jsonData) apiSettings = (evs3, Inl e3)"
  shows "translateJson H dflt jsonData customPrompt apiSettings =
           (evs1 @ [WarnAttempt 1 e1, Delay 2000] @ evs2 @ [WarnAttempt 2 e2, Delay 4000]
              @ evs3 @ [WarnAttempt 3 e3], Inl e3)
         \<and> failed_attempts (fst (translateJson H dflt jsonData customPrompt apiSettings)) = [1, 2, 3]
         \<and> delays_of (fst (translateJson H dflt jsonData customPrompt apiSettings)) = [2000, 4000]"
proof -
  have run: "translateJson H dflt jsonData customPrompt apiSettings =
           (evs1 @ [WarnAttempt 1 e1, Delay 2000] @ evs2 @ [WarnAttempt 2 e2, Delay 4000]
              @ evs3 @ [WarnAttempt 3 e3], Inl e3)"
    unfolding translateJson_def Let_def by (rule retry_loop_three_failures [OF a1 a2 a3])
  have q1: "delays_of evs1 = []" "failed_attempts evs1 = []"
    using attempt_once_quiet [OF a1] by simp_all
  have q2: "delays_of evs2 = []" "failed_attempts evs2 = []"
    using attempt_once_quiet [OF a2] by simp_all
  have q3: "delays_of evs3 = []" "failed_attempts evs3 = []"
    using attempt_once_quiet [OF a3] by simp_all
  show ?thesis
    unfolding run by (simp add: delays_of_append failed_attempts_append q1 q2 q3)
qed

theorem retry_exactly_three_attempts_witness:
  "failed_attempts (fst (translateJson silent_host (js ''Translate.'') JNull None None)) = [1, 2, 3]
   \<and> delays_of (fst (translateJson silent_host (js ''Translate.'') JNull None None)) = [2000, 4000]
   \<and> snd (translateJson silent_host (js ''Translate.'') JNull None None) =
       Inl (Error (js ''No response text received''))"
  using retry_exactly_three_attempts [where H = silent_host and apiSettings = None
      and dflt = "js ''Translate.''" and customPrompt = None and jsonData = JNull,
      OF silent_attempt silent_attempt silent_attempt]
  by simp

text \<open>
  C7, as amended. When all three attempts fail, the call raises the error of the last
  attempt itself: the loop builds no wrapper, so the raised value is an
  \<open>ExhaustedRetriesError\<close> only if the last attempt's error already is one.
\<close>

theorem terminal_error_is_last_error:
  assumes a1: "attempt_once H 1 (systemInstruction_of dflt customPrompt) (JSON_stringify jsonData) apiSettings = (evs1, Inl e1)"
      and a2: "attempt_once H 2 (systemInstruction_of dflt customPrompt) (JSON_stringify jsonData) apiSettings = (evs2, Inl e2)"
      and a3: "attempt_once H 3 (systemInstruction_of dflt customPrompt) (JSON_stringify jsonData) apiSettings = (evs3, Inl e3)"
  shows "snd (translateJson H dflt jsonData customPrompt apiSettings) = Inl e3
         \<and> is_ExhaustedRetriesError e3 =
             (case snd (translateJson H dflt jsonData customPrompt apiSettings) of
                Inl e \<Rightarrow> is_ExhaustedRetriesError e | Inr v \<Rightarrow> False)"
  unfolding translateJson_def Let_def retry_loop_three_failures [OF a1 a2 a3] by simp

theorem terminal_error_is_last_error_witness:
  "snd (translateJson silent_host (js ''Translate.'') JNull None (Some offline_settings)) =
     Inl (HostError (js ''TypeError'') (js ''Failed to fetch''))"
  using terminal_error_is_last_error [where H = silent_host
      and apiSettings = "Some offline_settings"
      and dflt = "js ''Translate.''" and customPrompt = None and jsonData = JNull,
      OF offline_attempt offline_attempt offline_attempt]
  by simp

text \<open>
  C7 as stated fails: with a custom endpoint whose requests are all rejected, the three
  attempts fail and the value raised is the rejection of the host, not an
  \<open>ExhaustedRetriesError\<close>.
\<close>

theorem terminal_error_not_wrapped:
  "failed_attempts (fst (translateJson silent_host (js ''Translate.'') JNull None (Some offline_settings))) = [1, 2, 3]
   \<and> \<not> (\<exists>e. snd (translateJson silent_host (js ''Translate.'') JNull None (Some offline_settings)) = Inl e
          \<and> is_ExhaustedRetriesError e)"
proof -
  have run: "translateJson silent_host (js ''Translate.'') JNull None (Some offline_settings) =
          retry_loop silent_host (js ''Translate.'') (js ''null'') (Some offline_settings) 1 None []"
    by (simp add: translateJson_def systemInstruction_of_def)
  show ?thesis
    unfolding run retry_loop_three_failures [OF offline_attempt offline_attempt offline_attempt]
    by (simp add: failed_attempts_append is_ExhaustedRetriesError_def)
qed

text \<open>
  C10. When the selected provider returns the empty string, the attempt fails with the
  error \<open>No response text received\<close>; the loop handles it as any other failure: before
  the last attempt it logs the failure, waits and tries again, and at the last attempt
  it raises that error. No empty result is returned.
\<close>

theorem empty_text_fails_attempt:
  assumes empty: "provider_text H k si jsn st = (evs, Inr [])"
  shows "attempt_once H k si jsn st = (evs, Inl (Error (js ''No response text received'')))
         \<and> (k < maxRetries \<longrightarrow>
              retry_loop H si jsn st k lastError log =
                retry_loop H si jsn st (k + 1) (Some (Error (js ''No response text received'')))
                  (log @ evs @ [WarnAttempt k (Error (js ''No response text received'')),
                                Delay (1000 * 2 ^ k)]))
         \<and> (k = maxRetries \<longrightarrow>
              retry_loop H si jsn st k lastError log =
                (log @ evs @ [WarnAttempt k (Error (js ''No response text received''))],
                 Inl (Error (js ''No response text received''))))"
proof -
  have att: "attempt_once H k si jsn st = (evs, Inl (Error (js ''No response text received'')))"
    using empty by (simp add: attempt_once_def)
  show ?thesis
    using retry_loop_fail_step [OF att, of "k + 1" "1000 * 2 ^ k" lastError log]
      retry_loop_fail_last [OF att, of lastError log] att
    by simp
qed

theorem empty_text_fails_attempt_witness:
  \<open>translateJson late_host (js ''Translate.'') JNull None None =
     ([Generate \<lparr>model = modelId, contents = geminiUserPrompt (js ''null''),
                  systemInstruction = js ''Translate.'',
                  responseMimeType = js ''application/json''\<rparr>,
       WarnAttempt 1 (Error (js ''No response text received'')),
       Delay 2000,
       Generate \<lparr>model = modelId, contents = geminiUserPrompt (js ''null''),
                  systemInstruction = js ''Translate.'',
                  responseMimeType = js ''application/json''\<rparr>],
      Inr (JObj [(js ''a'', JNum 1 0)]))\<close>
proof -
  let ?si = "js ''Translate.''" and ?jsn = "js ''null''"
  let ?g = "Generate \<lparr>model = modelId, contents = geminiUserPrompt ?jsn,
                  systemInstruction = ?si, responseMimeType = js ''application/json''\<rparr>"
  let ?E = "Error (js ''No response text received'')"
  have "(1::nat) < maxRetries" by (simp add: maxRetries_def)
  with empty_text_fails_attempt [where H = late_host and k = 1 and si = ?si and jsn = ?jsn
      and st = None and lastError = None and log = "[]", OF late_first]
  have "retry_loop late_host ?si ?jsn None 1 None [] =
          retry_loop late_host ?si ?jsn None (1 + 1) (Some ?E)
            ([] @ [?g] @ [WarnAttempt 1 ?E, Delay (1000 * 2 ^ 1)])"
    by blast
  also have "\<dots> = retry_loop late_host ?si ?jsn None 2 (Some ?E) [?g, WarnAttempt 1 ?E, Delay 2000]"
    by (simp add: numeral_2_eq_2)
  also have "\<dots> = ([?g, WarnAttempt 1 ?E, Delay 2000] @ [?g], Inr (JObj [(js ''a'', JNum 1 0)]))"
    by (rule retry_loop_success [OF late_second]) (simp add: maxRetries_def)
  finally show ?thesis
    by (simp add: translateJson_def systemInstruction_of_def)
qed

section \<open>The request body\<close>

text \<open>
  What the substitution step does right. \<open>find_first\<close> finds the leftmost occurrence of
  the placeholder; a replacement text without a dollar sign is inserted as it is, and
  the JSON encoding of a prompt without a dollar sign has none; so for such a prompt the
  placeholder (the quoted one if the template has it, else the bare one) is replaced by
  the encoded prompt, and a template without placeholder is returned as it is. The
  encoding itself is sound: parsing the encoded prompt gives the prompt back.
\<close>

lemma find_first_Some: "find_first pat s = Some (pre, post) \<Longrightarrow> s = pre @ pat @ post"
proof (induction s arbitrary: pre)
  case Nil
  then show ?case by (simp split: if_splits)
next
  case (Cons c cs)
  show ?case
  proof (cases "prefix pat (c # cs)")
    case True
    with Cons.prems have "pre = []" "post = drop (length pat) (c # cs)" by simp_all
    with True show ?thesis by (auto simp: prefix_def)
  next
    case False
    with Cons.prems obtain pre' where "find_first pat cs = Some (pre', post)" "pre = c # pre'"
      by (auto split: option.splits)
    with Cons.IH [of pre'] show ?thesis by simp
  qed
qed

lemma find_first_None: "find_first pat s = None \<Longrightarrow> s \<noteq> pre @ pat @ post"
proof (induction s arbitrary: pre)
  case Nil
  then show ?case by (simp split: if_splits)
next
  case (Cons c cs)
  from Cons.prems have np: "\<not> prefix pat (c # cs)" and rec: "find_first pat cs = None"
    by (auto split: if_splits option.splits)
  show ?case
  proof (cases pre)
    case Nil
    with np show ?thesis by (auto simp: prefix_def)
  next
    case (Cons p pre')
    with Cons.IH [OF rec, of pre'] show ?thesis by simp
  qed
qed

lemma find_first_leftmost:
  "find_first pat s = Some (pre, post) \<Longrightarrow> s = pre' @ pat @ post' \<Longrightarrow> length pre \<le> length pre'"
proof (induction s arbitrary: pre pre')
  case Nil
  then show ?case by (simp split: if_splits)
next
  case (Cons c cs)
  show ?case
  proof (cases "prefix pat (c # cs)")
    case True
    with Cons.prems(1) have "pre = []" by simp
    then show ?thesis by simp
  next
    case False
    with Cons.prems(1) obtain p where p: "find_first pat cs = Some (p, post)" "pre = c # p"
      by (auto split: option.splits)
    from False Cons.prems(2) obtain q where q: "pre' = c # q" "cs = q @ pat @ post'"
      by (cases pre') (auto simp: prefix_def)
    from Cons.IH [OF p(1) q(2)] p q show ?thesis by simp
  qed
qed

lemma getSubstitution_no_dollar:
  "cu CHR ''$'' \<notin> set r \<Longrightarrow> getSubstitution matched pre post r = r"
  by (induction matched pre post r rule: getSubstitution.induct) auto

lemma quote_unit_no_dollar: "c \<noteq> cu CHR ''$'' \<Longrightarrow> cu CHR ''$'' \<notin> set (quote_unit c)"
  by (simp add: quote_unit_def unicode_escape_def hex_digit_def)

lemma quote_units_no_dollar: "cu CHR ''$'' \<notin> set s \<Longrightarrow> cu CHR ''$'' \<notin> set (quote_units s)"
proof (induction s rule: quote_units.induct)
  case 1
  show ?case by simp
next
  case (2 c)
  then show ?case using quote_unit_no_dollar [of c] by simp
next
  case (3 c d cs)
  then show ?case using quote_unit_no_dollar [of c] by auto
qed

lemma quote_json_string_no_dollar:
  "cu CHR ''$'' \<notin> set s \<Longrightarrow> cu CHR ''$'' \<notin> set (quote_json_string s)"
  using quote_units_no_dollar [of s] by (simp add: quote_json_string_def)

lemma prepare_body_without_dollar:
  assumes "cu CHR ''$'' \<notin> set prompt"
  shows \<open>prepare_body template prompt =
     (case find_first (js ''"{{prompt}}"'') template of
        Some (pre, post) \<Rightarrow> pre @ quote_json_string prompt @ post
      | None \<Rightarrow>
          (case find_first (js ''{{prompt}}'') template of
             Some (pre, post) \<Rightarrow> pre @ quote_json_string prompt @ post
           | None \<Rightarrow> template))\<close>
  using getSubstitution_no_dollar [OF quote_json_string_no_dollar [OF assms]]
  by (simp add: prepare_body_def String_includes_def String_replace_def Let_def
           split: option.splits)

lemma hex_value_hex_digit: "d < 16 \<Longrightarrow> hex_value (hex_digit d) = Some d"
  by (auto simp: hex_value_def hex_digit_def)

lemma hex_digits_value:
  assumes "c < 65536"
  shows "((c div 4096 mod 16 * 16 + c div 256 mod 16) * 16 + c div 16 mod 16) * 16 + c mod 16 = (c::nat)"
proof -
  define a where "a = c div 16"
  define b where "b = a div 16"
  define d where "d = b div 16"
  have b: "c div 256 = b"
    unfolding a_def b_def by (simp add: div_mult2_eq [symmetric])
  have d: "c div 4096 = d"
    unfolding a_def b_def d_def by (simp add: div_mult2_eq [symmetric])
  from assms d have "d < 16" by auto
  then have d16: "d mod 16 = d" by simp
  have s1: "d * 16 + b mod 16 = b" unfolding d_def by (rule div_mult_mod_eq)
  have s2: "b * 16 + a mod 16 = a" unfolding b_def by (rule div_mult_mod_eq)
  have s3: "a * 16 + c mod 16 = c" unfolding a_def by (rule div_mult_mod_eq)
  show ?thesis
    unfolding b d d16 s1 a_def [symmetric] s2 s3 ..
qed

lemma parse_unicode_escape:
  assumes "c < 65536"
  shows "parse_string_chars (unicode_escape c @ rest) = push_unit c (parse_string_chars rest)"
proof -
  have "hex4 (hex_digit (c div 4096 mod 16)) (hex_digit (c div 256 mod 16))
          (hex_digit (c div 16 mod 16)) (hex_digit (c mod 16)) = Some c"
    unfolding hex4_def by (simp only: hex_value_hex_digit mod_less_divisor zero_less_numeral
        option.case hex_digits_value [OF assms])
  then show ?thesis by (simp add: unicode_escape_def)
qed

lemma parse_quote_unit:
  "parse_string_chars (quote_unit c @ rest) = push_unit c (parse_string_chars rest)"
proof -
  consider (esc) "c = 8 \<or> c = 9 \<or> c = 10 \<or> c = 12 \<or> c = 13 \<or> c = 34 \<or> c = 92"
    | (uni) "c \<noteq> 8" "c \<noteq> 9" "c \<noteq> 10" "c \<noteq> 12" "c \<noteq> 13" "c \<noteq> 34" "c \<noteq> 92"
        "c < 32 \<or> is_high_surrogate c \<or> is_low_surrogate c"
    | (plain) "c \<noteq> 34" "c \<noteq> 92" "32 \<le> c" "\<not> is_high_surrogate c" "\<not> is_low_surrogate c"
    by (cases "c < 32") auto
  then show ?thesis
  proof cases
    case esc
    then show ?thesis by (auto simp: quote_unit_def unescape_def)
  next
    case uni
    then have "c < 65536" by (auto simp: is_high_surrogate_def is_low_surrogate_def)
    from parse_unicode_escape [OF this] uni show ?thesis by (simp add: quote_unit_def)
  next
    case plain
    then show ?thesis by (simp add: quote_unit_def)
  qed
qed

lemma parse_quote_units:
  "parse_string_chars (quote_units s @ 34 # rest) = Some (s, rest)"
proof (induction s rule: quote_units.induct)
  case 1
  show ?case by simp
next
  case (2 c)
  have "parse_string_chars (quote_unit c @ 34 # rest) = Some ([c], rest)"
    unfolding parse_quote_unit by (simp add: push_unit_def)
  then show ?case by simp
next
  case (3 c d cs)
  show ?case
  proof (cases "is_high_surrogate c \<and> is_low_surrogate d")
    case True
    then have q: "quote_units (c # d # cs) = c # d # quote_units cs" by simp
    from True have "c \<noteq> 34" "c \<noteq> 92" "\<not> c < 32" "d \<noteq> 34" "d \<noteq> 92" "\<not> d < 32"
      by (auto simp: is_high_surrogate_def is_low_surrogate_def)
    with "3.IH"(1) [OF True] show ?thesis
      unfolding q by (simp add: push_unit_def)
  next
    case False
    then have q: "quote_units (c # d # cs) = quote_unit c @ quote_units (d # cs)"
      by (simp only: quote_units.simps if_False)
    have "parse_string_chars (quote_unit c @ quote_units (d # cs) @ 34 # rest) =
            push_unit c (parse_string_chars (quote_units (d # cs) @ 34 # rest))"
      by (rule parse_quote_unit)
    also have "\<dots> = Some (c # d # cs, rest)"
      unfolding "3.IH"(2) [OF False] by (simp add: push_unit_def)
    finally show ?thesis unfolding q append_assoc .
  qed
qed

lemma JSON_parse_quote_json_string: "JSON_parse (quote_json_string s) = Some (JStr s)"
proof -
  have "parse_value (34 # quote_units s @ [34]) = Some (JStr s, [])"
    using parse_quote_units [of s "[]"]
    by (subst parse_value.simps) (simp add: skip_ws_def is_json_ws_def)
  then show ?thesis by (simp add: JSON_parse_def quote_json_string_def skip_ws_def)
qed

text \<open>
  C1, at a failing input. The replacement text goes through the dollar patterns of
  \<open>String.prototype.replace\<close>. With the template \<open>{"q": {{prompt}}}\<close> the prompt
  \<open>$$\<close> gives a body that parses, but to the value \<open>$\<close>, not to the prompt; the
  prompt \<open>$`\<close> gives a body that is not valid JSON.
\<close>

theorem dollar_patterns_corrupt_body:
  \<open>prepare_body (js ''{"q": {{prompt}}}'') (js ''$$'') = js ''{"q": "$"}''
   \<and> JSON_parse (prepare_body (js ''{"q": {{prompt}}}'') (js ''$$''))
       = Some (JObj [(js ''q'', JStr (js ''$''))])
   \<and> prepare_body (js ''{"q": {{prompt}}}'') (js ''$`'') = js ''{"q": "{"q": "}''
   \<and> JSON_parse (prepare_body (js ''{"q": {{prompt}}}'') (js ''$`'')) = None\<close>
  by (simp add: body_eval parse_eval)

text \<open>
  C6, at a failing input. The prompt \<open>a$&b\<close> has the JSON encoding \<open>"a$&b"\<close>, but what
  replaces the placeholder is that text with \<open>$&\<close> expanded to the matched placeholder,
  in the pre-quoted mode and in the bare mode.
\<close>

theorem replacement_patterns_expand:
  \<open>quote_json_string (js ''a$&b'') = js ''"a$&b"''
   \<and> prepare_body (js ''{"q": "{{prompt}}"}'') (js ''a$&b'') = js ''{"q": "a"{{prompt}}"b"}''
   \<and> prepare_body (js ''{"q": {{prompt}}}'') (js ''a$&b'') = js ''{"q": "a{{prompt}}b"}''\<close>
  by (simp add: body_eval)

section \<open>Empty templates\<close>

lemma prepare_body_empty: "prepare_body [] prompt = []"
  by (simp add: prepare_body_def String_includes_def String_replace_def Let_def)

lemma empty_headers_rejected:
  "callCustomApi inh send prompt (settings\<lparr>customHeaders := []\<rparr>) =
     ([], Inl (Error (js ''Invalid Custom Headers format. Must be valid JSON.'')))"
  by (simp add: callCustomApi_def parse_eval)

lemma empty_body_run:
  \<open>callCustomApi (\<lambda>v key. Undefined) reply_sender (js ''Translate this'') empty_body_settings =
     ([Fetch \<lparr>url = js ''https://example.invalid/chat'', http_method = js ''POST'', headers = JObj [],
              body = Some []\<rparr>], Inr (js ''ok''))\<close>
  by (simp add: callCustomApi_def empty_body_settings_def reply_sender_def prepare_body_empty
      parse_eval Let_def extract_response_def getNestedValue_def and_get_def)

text \<open>
  C5, as amended. An empty body template is not rejected by \<open>callCustomApi\<close>: when the
  headers parse, the substitution leaves the body empty and the request is sent, with
  the empty string as its body for \<open>POST\<close> and without body otherwise.
\<close>

theorem empty_body_template_is_sent:
  assumes "customBodyTemplate settings = []"
      and "JSON_parse (customHeaders settings) = Some hdrs"
  shows "\<exists>evs r. callCustomApi inh send prompt settings =
           (Fetch \<lparr>url = customUrl settings, http_method = customMethod settings, headers = hdrs,
                   body = (if customMethod settings = js ''POST'' then Some [] else None)\<rparr> # evs, r)"
  using assms
  by (auto simp: callCustomApi_def prepare_body_empty Let_def
           split: fetch_outcome.splits sum.splits option.splits prod.splits)

theorem empty_body_template_is_sent_witness:
  \<open>\<exists>evs r. callCustomApi (\<lambda>v key. Undefined) reply_sender (js ''Translate this'') empty_body_settings =
           (Fetch \<lparr>url = js ''https://example.invalid/chat'', http_method = js ''POST'', headers = JObj [],
                   body = Some []\<rparr> # evs, r)\<close>
proof -
  have h: "customBodyTemplate empty_body_settings = []"
    by (simp add: empty_body_settings_def)
  have p: "JSON_parse (customHeaders empty_body_settings) = Some (JObj [])"
    by (simp add: empty_body_settings_def parse_eval)
  show ?thesis
    using empty_body_template_is_sent [OF h p, of "\<lambda>v key. Undefined" reply_sender "js ''Translate this''"]
    by (simp add: empty_body_settings_def)
qed

text \<open>
  C5 as stated fails: with an empty body template and the headers \<open>{}\<close> the request goes
  out with an empty body and the call returns the extracted string; no error is raised.
\<close>

theorem empty_body_template_not_rejected:
  \<open>customBodyTemplate empty_body_settings = []
   \<and> callCustomApi (\<lambda>v key. Undefined) reply_sender (js ''Translate this'') empty_body_settings =
     ([Fetch \<lparr>url = js ''https://example.invalid/chat'', http_method = js ''POST'', headers = JObj [],
              body = Some []\<rparr>], Inr (js ''ok''))\<close>
  using empty_body_run by (simp add: empty_body_settings_def)

section \<open>Round trip\<close>

text \<open>
  C8. With a built-in client that echoes the contents of its request, the call
  \<open>translateJson({"k":"v"})\<close>, without provider settings and whatever the custom prompt,
  makes one request and returns \<open>{"k":"v"}\<close>.
\<close>

theorem echo_round_trip:
  \<open>translateJson (H\<lparr>generateContent := (\<lambda>attempt req. GenerateResponse (Some (contents req)))\<rparr>)
      dflt (JObj [(js ''k'', JStr (js ''v''))]) customPrompt None =
     ([Generate \<lparr>model = modelId,
                  contents = js ''Please translate the following JSON:\<newline>\<newline>```json\<newline>{"k":"v"}\<newline>```'',
                  systemInstruction = systemInstruction_of dflt customPrompt,
                  responseMimeType = js ''application/json''\<rparr>],
      Inr (JObj [(js ''k'', JStr (js ''v''))]))\<close>
proof -
  let ?H = "H\<lparr>generateContent := (\<lambda>attempt req. GenerateResponse (Some (contents req)))\<rparr>"
  have str: \<open>JSON_stringify (JObj [(js ''k'', JStr (js ''v''))]) = js ''{"k":"v"}''\<close>
    by (simp add: body_eval)
  have prompt: \<open>geminiUserPrompt (js ''{"k":"v"}'') =
      js ''Please translate the following JSON:\<newline>\<newline>```json\<newline>{"k":"v"}\<newline>```''\<close>
    by (simp add: geminiUserPrompt_def task_block_def)
  have clean: \<open>parse_clean (js ''Please translate the following JSON:\<newline>\<newline>```json\<newline>{"k":"v"}\<newline>```'')
      = Inr (JObj [(js ''k'', JStr (js ''v''))])\<close>
    by (simp add: clean_eval parse_eval)
  have att: "attempt_once ?H 1 si (js ''{\"k\":\"v\"}'') None =
     ([Generate \<lparr>model = modelId, contents = geminiUserPrompt (js ''{\"k\":\"v\"}''),
         systemInstruction = si, responseMimeType = js ''application/json''\<rparr>],
      Inr (JObj [(js ''k'', JStr (js ''v''))]))" for si
    unfolding attempt_once_def provider_text_def prompt using clean by simp
  have run: \<open>retry_loop ?H (systemInstruction_of dflt customPrompt) (js ''{"k":"v"}'') None 1 None [] =
     ([] @ [Generate \<lparr>model = modelId, contents = geminiUserPrompt (js ''{"k":"v"}''),
         systemInstruction = systemInstruction_of dflt customPrompt,
         responseMimeType = js ''application/json''\<rparr>],
      Inr (JObj [(js ''k'', JStr (js ''v''))]))\<close>
    by (rule retry_loop_success [OF att]) (simp add: maxRetries_def)
  show ?thesis
    unfolding translateJson_def Let_def str run
    by (simp add: geminiUserPrompt_def task_block_def)
qed

section \<open>Path resolution\<close>

lemma foldl_and_get_falsy: "\<not> truthy v \<Longrightarrow> foldl (and_get inh) v parts = v"
  by (induction parts) (simp_all add: and_get_def)

lemma falsy_cases:
  "(\<not> truthy v) = (v = Undefined \<or> v = Decoded JNull \<or> v = Decoded (JBool False)
      \<or> (\<exists>e. v = Decoded (JNum 0 e)) \<or> v = Decoded (JStr []))"
proof (cases v)
  case (Decoded j)
  then show ?thesis by (cases j) auto
qed simp_all

lemma split_a_b: "split_on (cu CHR ''.'') (js ''a.b'') = [js ''a'', js ''b'']"
  by simp

text \<open>
  C9. \<open>getNestedValue\<close> folds \<open>acc && acc[part]\<close> over the segments, so once the value
  reached after some of the segments is falsy (\<open>null\<close>, \<open>false\<close>, zero, the empty
  string, or \<open>undefined\<close>) that value is the result and the remaining segments are not
  consumed. In particular the path \<open>a.b\<close> on \<open>{"a":""}\<close> yields the empty string, which
  the extraction step of \<open>callCustomApi\<close> returns as a successful result.
\<close>

theorem falsy_value_short_circuits:
  "(split_on (cu CHR ''.'') path = pre @ post
      \<and> \<not> truthy (foldl (and_get inh) (Decoded obj) pre)
    \<longrightarrow> getNestedValue inh obj path = foldl (and_get inh) (Decoded obj) pre)
   \<and> (\<not> truthy (Decoded j) \<longleftrightarrow>
        j = JNull \<or> j = JBool False \<or> (\<exists>e. j = JNum 0 e) \<or> j = JStr [])
   \<and> getNestedValue inh (JObj [(js ''a'', JStr [])]) (js ''a.b'') = Decoded (JStr [])
   \<and> extract_response inh (JObj [(js ''a'', JStr [])]) (js ''a.b'') = ([], Inr [])"
proof -
  have gen: "getNestedValue inh obj path = foldl (and_get inh) (Decoded obj) pre"
    if "split_on (cu CHR ''.'') path = pre @ post"
      and "\<not> truthy (foldl (and_get inh) (Decoded obj) pre)"
    using that by (simp add: getNestedValue_def foldl_and_get_falsy)
  have ex: "getNestedValue inh (JObj [(js ''a'', JStr [])]) (js ''a.b'') = Decoded (JStr [])"
    by (simp add: getNestedValue_def and_get_def)
  have "extract_response inh (JObj [(js ''a'', JStr [])]) (js ''a.b'') = ([], Inr [])"
    unfolding extract_response_def ex by simp
  with gen ex falsy_cases [of "Decoded j"] show ?thesis by auto
qed

theorem falsy_value_short_circuits_witness:
  "getNestedValue no_prototypes (JObj [(js ''a'', JNum 0 0)]) (js ''a.b'') = Decoded (JNum 0 0)"
proof -
  have "split_on (cu CHR ''.'') (js ''a.b'') = [js ''a''] @ [js ''b'']"
    by simp
  moreover have "\<not> truthy (foldl (and_get no_prototypes) (Decoded (JObj [(js ''a'', JNum 0 0)])) [js ''a''])"
    by (simp add: and_get_def)
  ultimately have "getNestedValue no_prototypes (JObj [(js ''a'', JNum 0 0)]) (js ''a.b'') =
      foldl (and_get no_prototypes) (Decoded (JObj [(js ''a'', JNum 0 0)])) [js ''a'']"
    using falsy_value_short_circuits [of "js ''a.b''" "[js ''a'']" "[js ''b'']" no_prototypes
        "JObj [(js ''a'', JNum 0 0)]"]
    by blast
  then show ?thesis by (simp add: and_get_def)
qed

lemma foldl_and_get_Undefined: "foldl (and_get inh) Undefined parts = Undefined"
  by (simp add: foldl_and_get_falsy)

lemma and_get_object:
  "and_get inh (Decoded (JObj kvs)) p =
     (case map_of kvs p of Some v \<Rightarrow> Decoded v | None \<Rightarrow> inh (Decoded (JObj kvs)) p)"
  by (simp add: and_get_def)

lemma and_get_array_index:
  "index_of_key p = Some i \<Longrightarrow>
     and_get inh (Decoded (JArr xs)) p =
       (if i < length xs then Decoded (xs ! i) else inh (Decoded (JArr xs)) p)"
  by (simp add: and_get_def)

lemma and_get_array_other:
  "index_of_key p = None \<Longrightarrow>
     and_get inh (Decoded (JArr xs)) p =
       (if p = js ''length'' then Decoded (number_of_nat (length xs))
        else inh (Decoded (JArr xs)) p)"
  by (simp add: and_get_def)

lemma and_get_true: "and_get inh (Decoded (JBool True)) p = inh (Decoded (JBool True)) p"
  by (simp add: and_get_def)

lemma and_get_number:
  "m \<noteq> 0 \<Longrightarrow> and_get inh (Decoded (JNum m e)) p = inh (Decoded (JNum m e)) p"
  by (simp add: and_get_def)

lemma and_get_falsy: "\<not> truthy v \<Longrightarrow> and_get inh v p = v"
  by (simp add: and_get_def)

lemma number_of_nat_is_number: "\<exists>m e. number_of_nat n = JNum m e"
  by (simp add: number_of_nat_def decimal_value_def Let_def)

lemma resolved_lockstep:
  "resolve_path_spec ps v = Resolved w \<Longrightarrow> foldl (and_get inh) (Decoded v) ps = Decoded w"
proof (induction ps v rule: resolve_path_spec.induct)
  case (2 p ps kvs)
  then show ?case by (simp add: and_get_object split: option.splits)
next
  case (3 p ps xs)
  from "3.prems" obtain i where i: "index_of_key p = Some i" "i < length xs"
    by (auto split: option.splits if_splits)
  with 3 show ?case by (simp add: and_get_array_index)
qed simp_all

lemma number_not_string:
  assumes "\<forall>x. \<forall>p\<in>set ps. inh x p = Undefined"
  shows "\<not> is_string (foldl (and_get inh) (Decoded (JNum m e)) ps)"
proof (cases ps)
  case Nil
  then show ?thesis by simp
next
  case (Cons p ps')
  show ?thesis
  proof (cases "m = 0")
    case True
    then show ?thesis by (simp add: foldl_and_get_falsy and_get_falsy)
  next
    case False
    with assms Cons show ?thesis
      by (simp add: and_get_number foldl_and_get_Undefined)
  qed
qed

lemma stuck_not_string:
  assumes "resolve_path_spec ps v = Stuck r" and "r \<noteq> IntoString"
      and "\<forall>x. \<forall>p\<in>set ps. inh x p = Undefined"
  shows "\<not> is_string (foldl (and_get inh) (Decoded v) ps)"
  using assms
proof (induction ps v rule: resolve_path_spec.induct)
  case (1 v)
  then show ?case by simp
next
  case (2 p ps kvs)
  show ?case
  proof (cases "map_of kvs p")
    case None
    with "2.prems" show ?thesis
      by (simp add: and_get_object foldl_and_get_Undefined)
  next
    case (Some v)
    with 2 show ?thesis by (simp add: and_get_object)
  qed
next
  case (3 p ps xs)
  from "3.prems"(3) have rest: "\<forall>x. \<forall>q\<in>set ps. inh x q = Undefined"
    and here: "\<And>x. inh x p = Undefined" by simp_all
  show ?case
  proof (cases "index_of_key p")
    case None
    show ?thesis
    proof (cases "p = js ''length''")
      case True
      obtain m e where n: "number_of_nat (length xs) = JNum m e"
        using number_of_nat_is_number by blast
      from number_not_string [OF rest, of m e] None True n show ?thesis
        by (simp add: and_get_array_other)
    next
      case False
      with None here show ?thesis
        by (simp add: and_get_array_other foldl_and_get_Undefined)
    qed
  next
    case (Some i)
    show ?thesis
    proof (cases "i < length xs")
      case True
      with Some "3.prems" rest "3.IH" [OF Some True] show ?thesis
        by (simp add: and_get_array_index)
    next
      case False
      with Some here show ?thesis
        by (simp add: and_get_array_index foldl_and_get_Undefined)
    qed
  qed
next
  case (4 p ps)
  then show ?case by (simp add: foldl_and_get_falsy and_get_falsy)
next
  case (5 p ps b)
  then show ?case
    by (cases b) (simp_all add: and_get_true and_get_falsy foldl_and_get_falsy foldl_and_get_Undefined)
next
  case (6 p ps m e)
  from number_not_string [OF "6.prems"(3)] show ?case .
next
  case (7 p ps s)
  then show ?case by simp
qed

lemma extract_response_string:
  "getNestedValue inh j path = Decoded (JStr s) \<Longrightarrow> extract_response inh j path = ([], Inr s)"
  by (simp add: extract_response_def)

lemma extract_response_not_string:
  "\<not> is_string (getNestedValue inh j path) \<Longrightarrow>
     extract_response inh j path =
       ([WarnExtracted (getNestedValue inh j path)], Inl (path_error path))"
  by (auto simp: extract_response_def Let_def split: jsval.splits json.splits)

text \<open>
  C2, as amended. Path resolution splits the path on dots and indexes segment by
  segment, a segment being an own key of an object or an index of an array in canonical
  decimal form. When every segment resolves and the value reached is a string, that
  string is returned; when the value reached is not a string, the extraction error is
  raised. When a segment cannot be resolved because the key is missing, the index is out
  of range or not an index, or the value indexed is \<open>null\<close>, a boolean or a number, the
  extraction error is raised as well, provided no segment of the path names a property
  that the host's prototypes supply. Indexing into a string is left out: it does not
  fail the way the other scalars do.
\<close>

theorem path_resolution_refines_spec:
  "(resolve_path_spec (split_on (cu CHR ''.'') path) j = Resolved (JStr s)
      \<longrightarrow> extract_response inh j path = ([], Inr s))
   \<and> (resolve_path_spec (split_on (cu CHR ''.'') path) j = Resolved v \<and> (\<forall>t. v \<noteq> JStr t)
      \<longrightarrow> snd (extract_response inh j path) = Inl (path_error path))
   \<and> (resolve_path_spec (split_on (cu CHR ''.'') path) j = Stuck r \<and> r \<noteq> IntoString
        \<and> (\<forall>x. \<forall>p\<in>set (split_on (cu CHR ''.'') path). inh x p = Undefined)
      \<longrightarrow> snd (extract_response inh j path) = Inl (path_error path))"
proof (intro conjI impI)
  assume "resolve_path_spec (split_on (cu CHR ''.'') path) j = Resolved (JStr s)"
  then have "getNestedValue inh j path = Decoded (JStr s)"
    unfolding getNestedValue_def by (rule resolved_lockstep)
  then show "extract_response inh j path = ([], Inr s)"
    by (rule extract_response_string)
next
  assume a: "resolve_path_spec (split_on (cu CHR ''.'') path) j = Resolved v \<and> (\<forall>t. v \<noteq> JStr t)"
  then have "getNestedValue inh j path = Decoded v"
    unfolding getNestedValue_def by (simp add: resolved_lockstep)
  moreover from a have "\<not> is_string (Decoded v)" by (cases v) simp_all
  ultimately show "snd (extract_response inh j path) = Inl (path_error path)"
    by (simp add: extract_response_not_string)
next
  assume a: "resolve_path_spec (split_on (cu CHR ''.'') path) j = Stuck r \<and> r \<noteq> IntoString
        \<and> (\<forall>x. \<forall>p\<in>set (split_on (cu CHR ''.'') path). inh x p = Undefined)"
  then have "\<not> is_string (getNestedValue inh j path)"
    unfolding getNestedValue_def using stuck_not_string by blast
  then show "snd (extract_response inh j path) = Inl (path_error path)"
    by (simp add: extract_response_not_string)
qed

lemma index_of_key_0: "index_of_key [48] = Some 0"
  by (simp add: index_of_key_def is_digit_def int_of_digits_def)

lemma index_of_key_1: "index_of_key [49] = Some 1"
  by (simp add: index_of_key_def is_digit_def int_of_digits_def)

lemma split_content: "split_on (cu CHR ''.'') (js ''choices.0.message.content'') =
    [js ''choices'', js ''0'', js ''message'', js ''content'']"
  by simp

lemma split_out_of_range: "split_on (cu CHR ''.'') (js ''choices.1.x'') =
    [js ''choices'', js ''1'', js ''x'']"
  by simp

theorem path_resolution_refines_spec_witness:
  "extract_response no_prototypes choices_example (js ''choices.0.message.content'')
     = ([], Inr (js ''hi''))
   \<and> snd (extract_response no_prototypes choices_example (js ''choices.1.x''))
     = Inl (path_error (js ''choices.1.x''))"
proof -
  have r1: "resolve_path_spec (split_on (cu CHR ''.'') (js ''choices.0.message.content''))
              choices_example = Resolved (JStr (js ''hi''))"
    unfolding split_content by (simp add: choices_example_def index_of_key_0)
  have r2: "resolve_path_spec (split_on (cu CHR ''.'') (js ''choices.1.x'')) choices_example
              = Stuck OutOfRange"
    unfolding split_out_of_range by (simp add: choices_example_def index_of_key_1)
  have np: "\<forall>x. \<forall>p\<in>set (split_on (cu CHR ''.'') (js ''choices.1.x'')). no_prototypes x p = Undefined"
    by (simp add: no_prototypes_def)
  from path_resolution_refines_spec [of "js ''choices.0.message.content''" choices_example
      "js ''hi''" no_prototypes] r1
  have "extract_response no_prototypes choices_example (js ''choices.0.message.content'')
     = ([], Inr (js ''hi''))"
    by blast
  moreover from path_resolution_refines_spec [of "js ''choices.1.x''" choices_example
      _ no_prototypes _ OutOfRange] r2 np
  have "snd (extract_response no_prototypes choices_example (js ''choices.1.x''))
     = Inl (path_error (js ''choices.1.x''))"
    by blast
  ultimately show ?thesis by simp
qed

text \<open>
  C2 as stated fails: indexing into a string is not an unresolvable segment. On
  \<open>{"a":""}\<close> the path \<open>a.b\<close> returns the empty string, and on \<open>{"a":"xyz"}\<close> the
  path \<open>a.0\<close> returns \<open>x\<close>, where the specification's resolution stops at a scalar.
\<close>

theorem empty_string_is_not_unresolvable:
  "resolve_path_spec (split_on (cu CHR ''.'') (js ''a.b'')) (JObj [(js ''a'', JStr [])])
     = Stuck IntoString
   \<and> extract_response no_prototypes (JObj [(js ''a'', JStr [])]) (js ''a.b'') = ([], Inr [])
   \<and> resolve_path_spec (split_on (cu CHR ''.'') (js ''a.0'')) (JObj [(js ''a'', JStr (js ''xyz''))])
     = Stuck IntoString
   \<and> extract_response no_prototypes (JObj [(js ''a'', JStr (js ''xyz''))]) (js ''a.0'')
     = ([], Inr (js ''x''))"
  by (simp add: extract_response_def getNestedValue_def and_get_def index_of_key_0)

section \<open>Lenient recovery\<close>

lemma star_any_suffixes:
  "length s \<le> n \<Longrightarrow> star_iter (matches AnyUnit) n s = suffixes s"
proof (induction s arbitrary: n)
  case Nil
  then show ?case by (cases n) simp_all
next
  case (Cons x r)
  then obtain m where n: "n = Suc m" and m: "length r \<le> m"
    by (cases n) auto
  from Cons.IH [OF m] show ?case by (simp add: n)
qed

lemma matches_star_any: "matches (Star AnyUnit) s = suffixes s"
  by (simp add: star_any_suffixes)

lemma closers_Cons:
  "closers c (x # t) = closers c t @ (if x = c then [t] else [])"
  by (simp add: closers_def)

lemma closers_Nil: "closers c [] = []"
  by (simp add: closers_def)

lemma closers_empty: "(closers c t = []) = (c \<notin> set t)"
  by (induction t) (auto simp: closers_Cons closers_Nil)

lemma after_last_Cons_in: "c \<in> set t \<Longrightarrow> after_last c (x # t) = after_last c t"
  by (simp add: after_last_def takeWhile_append1)

lemma after_last_Cons_notin:
  assumes "c \<notin> set t"
  shows "after_last c (c # t) = t"
proof -
  have "takeWhile (\<lambda>x. x \<noteq> c) (rev t @ [c]) = rev t @ takeWhile (\<lambda>x. x \<noteq> c) [c]"
    by (rule takeWhile_append2) (use assms in auto)
  then show ?thesis by (simp add: after_last_def)
qed

lemma closers_hd: "c \<in> set t \<Longrightarrow> \<exists>rest. closers c t = after_last c t # rest"
proof (induction t)
  case Nil
  then show ?case by simp
next
  case (Cons x t)
  show ?case
  proof (cases "c \<in> set t")
    case True
    with Cons.IH obtain rest where "closers c t = after_last c t # rest" by blast
    with True show ?thesis by (simp add: closers_Cons after_last_Cons_in)
  next
    case False
    with Cons.prems have "x = c" by simp
    with False show ?thesis
      by (simp add: closers_Cons closers_empty [THEN iffD2] after_last_Cons_notin)
  qed
qed

lemma through_after: "through_last c t @ after_last c t = t"
proof -
  have "rev (takeWhile (\<lambda>x. x \<noteq> c) (rev t) @ dropWhile (\<lambda>x. x \<noteq> c) (rev t)) = t"
    by simp
  then show ?thesis
    unfolding through_last_def after_last_def rev_append .
qed

lemma take_through: "take (Suc (length t) - length (after_last c t)) (x # t) = x # through_last c t"
proof -
  have "length t = length (through_last c t) + length (after_last c t)"
    using through_after [of c t] by (metis length_append)
  then have "Suc (length t) - length (after_last c t) = length (x # through_last c t)"
    by simp
  moreover have "x # t = (x # through_last c t) @ after_last c t"
    by (simp add: through_after)
  ultimately show ?thesis
    by (metis append_eq_conv_conj)
qed

lemma matches_delimited:
  "matches (Seq (Lit opn) (Seq (Star AnyUnit) (Lit c))) s =
     (case s of [] \<Rightarrow> [] | x # r \<Rightarrow> if x = opn then closers c r else [])"
  by (cases s) (simp_all add: closers_def star_any_suffixes)

lemma matches_json_regex:
  "matches json_regex (x # r) =
     (if x = cu CHR ''{'' then closers (cu CHR ''}'') r else [])
     @ (if x = cu CHR ''['' then closers (cu CHR '']'') r else [])"
  unfolding json_regex_def matches.simps(5) matches_delimited by simp

lemma regex_search_json_spec: "regex_search json_regex s = json_span_spec s"
proof (induction s)
  case Nil
  show ?case by (simp add: json_regex_def)
next
  case (Cons x r)
  consider (brace) "x = cu CHR ''{''" "cu CHR ''}'' \<in> set r"
    | (bracket) "x = cu CHR ''[''" "cu CHR '']'' \<in> set r"
    | (none) "\<not> (x = cu CHR ''{'' \<and> cu CHR ''}'' \<in> set r)"
             "\<not> (x = cu CHR ''['' \<and> cu CHR '']'' \<in> set r)"
    by blast
  then show ?case
  proof cases
    case brace
    from closers_hd [OF brace(2)] obtain rest where
      "closers (cu CHR ''}'') r = after_last (cu CHR ''}'') r # rest" by blast
    with brace have m: "matches json_regex (x # r) = after_last (cu CHR ''}'') r # rest"
      unfolding matches_json_regex by simp
    show ?thesis
      unfolding regex_search.simps m using brace take_through [of r "cu CHR ''}''" x]
      by simp
  next
    case bracket
    from closers_hd [OF bracket(2)] obtain rest where
      "closers (cu CHR '']'') r = after_last (cu CHR '']'') r # rest" by blast
    with bracket have m: "matches json_regex (x # r) = after_last (cu CHR '']'') r # rest"
      unfolding matches_json_regex by simp
    show ?thesis
      unfolding regex_search.simps m using bracket take_through [of r "cu CHR '']''" x]
      by simp
  next
    case none
    then have m: "matches json_regex (x # r) = []"
      unfolding matches_json_regex by (auto simp: closers_empty)
    show ?thesis
      unfolding regex_search.simps m using none Cons.IH by auto
  qed
qed

lemma strip_prefix_Nil: "strip_prefix [] s = Some s"
  by (simp add: strip_prefix_def)

lemma strip_prefix_Cons:
  "strip_prefix (c # w) s =
     (case s of [] \<Rightarrow> None | x # r \<Rightarrow> if x = c then strip_prefix w r else None)"
  by (cases s) (auto simp: strip_prefix_def)

lemma strip_prefix_shorter: "strip_prefix (c # w) s = Some r \<Longrightarrow> length r < length s"
  by (auto simp: strip_prefix_def prefix_def split: if_splits)

lemma matches_Lit: "matches (Lit c) s = (case strip_prefix [c] s of Some r \<Rightarrow> [r] | None \<Rightarrow> [])"
  by (cases s) (simp_all add: strip_prefix_Cons strip_prefix_Nil)

lemma matches_lits: "matches (lits w) s = (case strip_prefix w s of Some r \<Rightarrow> [r] | None \<Rightarrow> [])"
proof (induction w arbitrary: s rule: lits.induct)
  case 1
  show ?case by (simp add: strip_prefix_Nil)
next
  case (2 c)
  show ?case unfolding lits.simps by (rule matches_Lit)
next
  case (3 c d cs)
  show ?case
  proof (cases s)
    case Nil
    then show ?thesis by (simp add: strip_prefix_Cons)
  next
    case (Cons x r)
    with 3 [of r] show ?thesis by (simp add: strip_prefix_Cons [of c])
  qed
qed

lemma matches_then_newline:
  "matches (Seq (lits w) (Opt (Lit 10))) s =
     (case strip_prefix w s of
        Some r \<Rightarrow> (case strip_prefix [10] r of Some r' \<Rightarrow> [r', r] | None \<Rightarrow> [r])
      | None \<Rightarrow> [])"
  unfolding matches.simps(4) matches.simps(6) matches_lits matches_Lit
  by (simp split: option.splits)

lemma matches_newline_then:
  "matches (Seq (Opt (Lit 10)) (lits w)) s =
     (case strip_prefix (10 # w) s of Some r \<Rightarrow> [r] | None \<Rightarrow> [])
     @ (case strip_prefix w s of Some r \<Rightarrow> [r] | None \<Rightarrow> [])"
  unfolding matches.simps(4) matches.simps(6) matches_lits
  by (cases s) (simp_all add: strip_prefix_Cons [of 10])

lemma matches_fence_regex:
  \<open>matches fence_regex s =
     (case strip_prefix (js ''```json'') s of
        Some r \<Rightarrow> (case strip_prefix [10] r of Some r' \<Rightarrow> [r', r] | None \<Rightarrow> [r])
      | None \<Rightarrow> [])
     @ (case strip_prefix (10 # js ''```'') s of Some r \<Rightarrow> [r] | None \<Rightarrow> [])
     @ (case strip_prefix (js ''```'') s of Some r \<Rightarrow> [r] | None \<Rightarrow> [])\<close>
  unfolding fence_regex_def matches.simps(5) matches_then_newline matches_newline_then ..

lemma remove_all_fence_spec: "remove_all fence_regex s = strip_fences_spec s"
proof (induction s rule: strip_fences_spec.induct)
  case (1 s)
  show ?case
  proof (cases s)
    case Nil
    then show ?thesis
      by (subst strip_fences_spec.simps) (simp add: strip_prefix_Cons)
  next
    case (Cons c cs)
    show ?thesis
    proof (cases \<open>strip_prefix (js ''```json'') s\<close>)
      case (Some r)
      then have len: "length r < length s" by (simp add: strip_prefix_shorter)
      show ?thesis
      proof (cases "strip_prefix [10] r")
        case None
        with Some have m: "\<exists>rest. matches fence_regex s = r # rest"
          unfolding matches_fence_regex by simp
        from "1.IH"(4) [OF Some None] m len Some None Cons show ?thesis
          by (subst strip_fences_spec.simps) auto
      next
        case r': (Some r')
        then have "length r' < length r" by (simp add: strip_prefix_shorter)
        with len have len': "length r' < length s" by simp
        from Some r' have m: "\<exists>rest. matches fence_regex s = r' # rest"
          unfolding matches_fence_regex by simp
        from "1.IH"(5) [OF Some r'] m len' Some r' Cons show ?thesis
          by (subst strip_fences_spec.simps) auto
      qed
    next
      case n1: None
      show ?thesis
      proof (cases \<open>strip_prefix (10 # js ''```'') s\<close>)
        case (Some r)
        then have len: "length r < length s" by (rule strip_prefix_shorter)
        from n1 Some have m: "\<exists>rest. matches fence_regex s = r # rest"
          unfolding matches_fence_regex by simp
        from "1.IH"(3) [OF n1 Some] m len n1 Some Cons show ?thesis
          by (subst strip_fences_spec.simps) auto
      next
        case n2: None
        show ?thesis
        proof (cases \<open>strip_prefix (js ''```'') s\<close>)
          case (Some r)
          then have len: "length r < length s" by (simp add: strip_prefix_shorter)
          from n1 n2 Some have m: "matches fence_regex s = [r]"
            unfolding matches_fence_regex by simp
          from "1.IH"(2) [OF n1 n2 Some] m len n1 n2 Some Cons show ?thesis
            by (subst strip_fences_spec.simps) auto
        next
          case n3: None
          from n1 n2 n3 have m: "matches fence_regex s = []"
            unfolding matches_fence_regex by simp
          from "1.IH"(1) [OF n1 n2 n3 Cons] m n1 n2 n3 Cons show ?thesis
            by (subst strip_fences_spec.simps) auto
        qed
      qed
    qed
  qed
qed

lemma last_through_last:
  assumes "c \<in> set r"
  shows "through_last c r \<noteq> [] \<and> last (through_last c r) = c"
proof -
  let ?d = "dropWhile (\<lambda>x. x \<noteq> c) (rev r)"
  from assms have ne: "?d \<noteq> []" by (simp add: dropWhile_eq_Nil_conv)
  then have "hd ?d = c" using hd_dropWhile [of "\<lambda>x. x \<noteq> c" "rev r"] by simp
  with ne show ?thesis by (simp add: through_last_def last_rev)
qed

lemma notin_after_last: "c \<notin> set (after_last c r)"
  by (auto simp: after_last_def dest: set_takeWhileD)

lemma json_span_spec_shape:
  "json_span_spec t = Some (pre, m, post) \<Longrightarrow>
     t = pre @ m @ post
     \<and> (delimited (cu CHR ''{'') (cu CHR ''}'') m post
        \<or> delimited (cu CHR ''['') (cu CHR '']'') m post)"
proof (induction t arbitrary: pre)
  case Nil
  then show ?case by simp
next
  case (Cons x r)
  consider (brace) "x = cu CHR ''{''" "cu CHR ''}'' \<in> set r"
    | (bracket) "x = cu CHR ''[''" "cu CHR '']'' \<in> set r"
    | (none) "\<not> (x = cu CHR ''{'' \<and> cu CHR ''}'' \<in> set r)"
             "\<not> (x = cu CHR ''['' \<and> cu CHR '']'' \<in> set r)"
    by blast
  then show ?case
  proof cases
    case brace
    with Cons.prems have e: "pre = []" "m = x # through_last (cu CHR ''}'') r"
      "post = after_last (cu CHR ''}'') r" by simp_all
    from last_through_last [OF brace(2)] e brace
    have "delimited (cu CHR ''{'') (cu CHR ''}'') m post"
      by (cases "through_last (cu CHR ''}'') r") (auto simp: delimited_def notin_after_last)
    with e show ?thesis by (simp add: through_after)
  next
    case bracket
    with Cons.prems have e: "pre = []" "m = x # through_last (cu CHR '']'') r"
      "post = after_last (cu CHR '']'') r" by auto
    from last_through_last [OF bracket(2)] e bracket
    have "delimited (cu CHR ''['') (cu CHR '']'') m post"
      by (cases "through_last (cu CHR '']'') r") (auto simp: delimited_def notin_after_last)
    with e show ?thesis by (simp add: through_after)
  next
    case none
    with Cons.prems obtain pre' where "json_span_spec r = Some (pre', m, post)" "pre = x # pre'"
      by (auto split: option.splits)
    with Cons.IH [of pre'] show ?thesis by simp
  qed
qed

lemma json_span_spec_None:
  "json_span_spec t = None \<Longrightarrow> t = pre @ x # r \<Longrightarrow>
     \<not> (x = cu CHR ''{'' \<and> cu CHR ''}'' \<in> set r) \<and> \<not> (x = cu CHR ''['' \<and> cu CHR '']'' \<in> set r)"
proof (induction t arbitrary: pre)
  case Nil
  then show ?case by simp
next
  case (Cons y t)
  show ?case
  proof (cases pre)
    case Nil
    with Cons.prems show ?thesis by (auto split: if_splits)
  next
    case (Cons p pre')
    with Cons.prems have "json_span_spec t = None" "t = pre' @ x # r"
      by (auto split: if_splits option.splits)
    then show ?thesis by (rule Cons.IH)
  qed
qed

lemma clean_text_spec:
  "clean_text text =
     (case json_span_spec (trim (strip_fences_spec text)) of
        Some (pre, m, post) \<Rightarrow> m
      | None \<Rightarrow> trim (strip_fences_spec text))"
  by (simp add: clean_text_def remove_all_fence_spec regex_search_json_spec Let_def)

lemma span_example:
  \<open>json_span_spec (js ''Result: {"a":1} {}. Bye'') = Some (js ''Result: '', js ''{"a":1} {}'', js ''. Bye'')\<close>
  by (simp add: through_last_def after_last_def)

text \<open>
  C3, as amended. Lenient recovery removes the fence markers, trims the text, takes the
  span from the first opening brace or bracket that has a closing delimiter of its kind
  after it through the last such closing delimiter (greedy, no balancing) and parses it
  as JSON; when the text has no such span, the whole cleaned text is parsed. It fails
  with the parser's \<open>SyntaxError\<close> exactly when the text so chosen is not valid JSON. The
  fenced input of the specification parses to \<open>{"a":1}\<close>.
\<close>

theorem lenient_recovery:
  \<open>parse_clean text =
     (case JSON_parse
             (case json_span_spec (trim (strip_fences_spec text)) of
                Some (pre, m, post) \<Rightarrow> m
              | None \<Rightarrow> trim (strip_fences_spec text)) of
        None \<Rightarrow> Inl SyntaxError
      | Some v \<Rightarrow> Inr v)
   \<and> (json_span_spec t = Some (pre, m, post) \<longrightarrow>
        t = pre @ m @ post
        \<and> (delimited (cu CHR ''{'') (cu CHR ''}'') m post
           \<or> delimited (cu CHR ''['') (cu CHR '']'') m post))
   \<and> (json_span_spec t = None \<and> t = before @ x # r \<longrightarrow>
        \<not> (x = cu CHR ''{'' \<and> cu CHR ''}'' \<in> set r)
        \<and> \<not> (x = cu CHR ''['' \<and> cu CHR '']'' \<in> set r))
   \<and> parse_clean (js ''Here is the result:\<newline>```json\<newline>{"a":1}\<newline>```\<newline>Thanks'')
       = Inr (JObj [(js ''a'', JNum 1 0)])\<close>
proof -
  have ex: \<open>parse_clean (js ''Here is the result:\<newline>```json\<newline>{"a":1}\<newline>```\<newline>Thanks'')
       = Inr (JObj [(js ''a'', JNum 1 0)])\<close>
    by (simp add: clean_eval parse_eval)
  show ?thesis
    using json_span_spec_shape [of t pre m post] json_span_spec_None [of t before x r] ex
    unfolding parse_clean_def clean_text_spec by blast
qed

theorem lenient_recovery_witness:
  \<open>js ''Result: {"a":1} {}. Bye'' = js ''Result: '' @ js ''{"a":1} {}'' @ js ''. Bye''
   \<and> (delimited (cu CHR ''{'') (cu CHR ''}'') (js ''{"a":1} {}'') (js ''. Bye'')
      \<or> delimited (cu CHR ''['') (cu CHR '']'') (js ''{"a":1} {}'') (js ''. Bye''))
   \<and> parse_clean (js ''Result: {"a":1} {}. Bye'') = Inl SyntaxError\<close>
proof -
  have p: \<open>parse_clean (js ''Result: {"a":1} {}. Bye'') = Inl SyntaxError\<close>
    by (simp add: clean_eval parse_eval)
  from lenient_recovery [of _ \<open>js ''Result: {"a":1} {}. Bye''\<close> \<open>js ''Result: ''\<close>
      \<open>js ''{"a":1} {}''\<close> \<open>js ''. Bye''\<close>] span_example p
  show ?thesis by blast
qed

text \<open>
  C3 as stated fails: a text without any opening delimiter is not rejected. The text
  \<open>42\<close> is parsed as it is and yields the number 42; and in \<open>{ [1]\<close> the span starts at
  the bracket, since no closing brace follows the brace.
\<close>

theorem recovery_without_delimiter:
  \<open>cu CHR ''{'' \<notin> set (js ''42'') \<and> cu CHR ''['' \<notin> set (js ''42'')
   \<and> parse_clean (js ''42'') = Inr (JNum 42 0)
   \<and> parse_clean (js ''{ [1]'') = Inr (JArr [JNum 1 0])\<close>
  by (simp add: clean_eval parse_eval)

end
